theory Spec2Isabelle
  imports Complex_Main "HOL-Library.Multiset"
begin

section \<open>The Number values of the language\<close>

text \<open>
  The program computes with the Number type of JavaScript: IEEE 754 binary64 with
  round-to-nearest, ties-to-even. A finite Number is kept as the rational it denotes.
  The two zeros are identified: the program never divides and prints both as \<open>0\<close>,
  so no operation it performs tells them apart.
\<close>

datatype jsnum = NaN | PInf | NInf | Fin rat

definition ipow :: "int \<Rightarrow> int \<Rightarrow> rat" where
  "ipow b e = (if 0 \<le> e then of_int (b ^ nat e) else 1 / of_int (b ^ nat (- e)))"

function ndigits :: "int \<Rightarrow> int \<Rightarrow> int" where
  "ndigits b n = (if n \<le> 0 \<or> b \<le> 1 then 0 else 1 + ndigits b (n div b))"
  by pat_completeness auto
termination
  by (relation "measure (\<lambda>(b, n). nat n)") (auto simp: int_div_less_self)

declare ndigits.simps [simp del]

text \<open>For \<open>0 < q\<close>, \<open>magnitude b q\<close> is the \<open>n\<close> with \<open>b ^ (n - 1) \<le> q < b ^ n\<close>.\<close>

definition magnitude :: "int \<Rightarrow> rat \<Rightarrow> int" where
  "magnitude b q = (if 1 \<le> q then ndigits b \<lfloor>q\<rfloor> else 1 - ndigits b (\<lceil>1 / q\<rceil> - 1))"

definition roundEven :: "rat \<Rightarrow> int" where
  "roundEven q = (let f = \<lfloor>q\<rfloor>; d = q - of_int f in
     if d < 1 / 2 then f else if 1 / 2 < d then f + 1 else if even f then f else f + 1)"

text \<open>
  Rounding a real result to binary64: 53 significant bits, the exponent of the last bit
  never below \<open>-1074\<close> (subnormals), overflow to infinity from \<open>2 ^ 1024\<close> on.
\<close>

definition round64 :: "rat \<Rightarrow> jsnum" where
  "round64 q = (if q = 0 then Fin 0 else
     let e = max (magnitude 2 \<bar>q\<bar> - 1) (- 1022) in
     if 1024 \<le> e then (if 0 < q then PInf else NInf) else
     let u = ipow 2 (e - 52);
         n = roundEven (q / u)
     in if e = 1023 \<and> 2 ^ 53 \<le> \<bar>n\<bar> then (if 0 < q then PInf else NInf)
        else Fin (of_int n * u))"

fun jsadd :: "jsnum \<Rightarrow> jsnum \<Rightarrow> jsnum" where
  "jsadd (Fin a) (Fin b) = round64 (a + b)"
| "jsadd NaN _ = NaN"
| "jsadd _ NaN = NaN"
| "jsadd PInf NInf = NaN"
| "jsadd NInf PInf = NaN"
| "jsadd PInf _ = PInf"
| "jsadd _ PInf = PInf"
| "jsadd NInf _ = NInf"
| "jsadd _ NInf = NInf"

fun jsmul :: "jsnum \<Rightarrow> jsnum \<Rightarrow> jsnum" where
  "jsmul (Fin a) (Fin b) = round64 (a * b)"
| "jsmul NaN _ = NaN"
| "jsmul _ NaN = NaN"
| "jsmul PInf (Fin b) = (if b = 0 then NaN else if 0 < b then PInf else NInf)"
| "jsmul NInf (Fin b) = (if b = 0 then NaN else if 0 < b then NInf else PInf)"
| "jsmul (Fin a) PInf = (if a = 0 then NaN else if 0 < a then PInf else NInf)"
| "jsmul (Fin a) NInf = (if a = 0 then NaN else if 0 < a then NInf else PInf)"
| "jsmul PInf PInf = PInf"
| "jsmul PInf NInf = NInf"
| "jsmul NInf PInf = NInf"
| "jsmul NInf NInf = PInf"

text \<open>\<open>Number.isInteger\<close>: finite and without fractional part.\<close>

fun isInteger :: "jsnum \<Rightarrow> bool" where
  "isInteger (Fin q) = (of_int \<lfloor>q\<rfloor> = q)"
| "isInteger _ = False"

subsection \<open>Numbers to strings\<close>

definition digitChar :: "int \<Rightarrow> char" where
  "digitChar d = char_of (48 + nat d)"

function decimal :: "int \<Rightarrow> string" where
  "decimal n = (if n < 10 then [digitChar n] else decimal (n div 10) @ [digitChar (n mod 10)])"
  by pat_completeness auto
termination
  by (relation "measure nat") auto

declare decimal.simps [simp del]

text \<open>
  \<open>Number::toString\<close> picks the least number \<open>k\<close> of significant digits for which some
  \<open>s\<close> of \<open>k\<close> digits gives back the Number when \<open>s * 10 ^ (n - k)\<close> is rounded, and among
  such \<open>s\<close> the one closest to it. Only the two \<open>k\<close>-digit neighbours of \<open>q\<close> can qualify.
  Seventeen digits always suffice, and there the nearest neighbour qualifies.
\<close>

definition nearer :: "rat \<Rightarrow> rat \<Rightarrow> int \<Rightarrow> int" where
  "nearer q sc lo =
     (let dl = q - of_int lo * sc; dh = of_int (lo + 1) * sc - q in
      if dl < dh then lo else if dh < dl then lo + 1 else if even lo then lo else lo + 1)"

fun shortest :: "rat \<Rightarrow> int \<Rightarrow> int \<Rightarrow> nat \<Rightarrow> int \<times> int" where
  "shortest q n k 0 = (nearer q (ipow 10 (n - k)) \<lfloor>q / ipow 10 (n - k)\<rfloor>, k)"
| "shortest q n k (Suc fuel) =
     (let sc = ipow 10 (n - k); lo = \<lfloor>q / sc\<rfloor>;
          okLo = (round64 (of_int lo * sc) = Fin q);
          okHi = (round64 (of_int (lo + 1) * sc) = Fin q)
      in if okLo \<and> okHi then (nearer q sc lo, k)
         else if okLo then (lo, k)
         else if okHi then (lo + 1, k)
         else shortest q n (k + 1) fuel)"

definition render :: "string \<Rightarrow> int \<Rightarrow> string" where
  "render ds n =
     (let k = int (length ds) in
      if - 5 \<le> n \<and> n \<le> 21 then
        (if k \<le> n then ds @ replicate (nat (n - k)) CHR ''0''
         else if 0 < n then take (nat n) ds @ ''.'' @ drop (nat n) ds
         else ''0.'' @ replicate (nat (- n)) CHR ''0'' @ ds)
      else
        (let e = n - 1; c = (if e < 0 then ''-'' else ''+''); ed = decimal \<bar>e\<bar> in
         if k = 1 then ds @ ''e'' @ c @ ed
         else take 1 ds @ ''.'' @ drop 1 ds @ ''e'' @ c @ ed))"

text \<open>When the upper neighbour is \<open>10 ^ k\<close>, the digits are those of \<open>10 ^ (k - 1)\<close>, one place up.\<close>

definition toStringPos :: "rat \<Rightarrow> string" where
  "toStringPos q =
     (let n = magnitude 10 q; (s, k) = shortest q n 1 16 in
      if s = 10 ^ nat k then render (decimal (s div 10)) (n + 1) else render (decimal s) n)"

fun toString :: "jsnum \<Rightarrow> string" where
  "toString NaN = ''NaN''"
| "toString PInf = ''Infinity''"
| "toString NInf = ''-Infinity''"
| "toString (Fin q) =
     (if q = 0 then ''0'' else if q < 0 then ''-'' @ toStringPos (- q) else toStringPos q)"

text \<open>
  \<open>Number.prototype.toFixed\<close> with \<open>f\<close> fraction digits: the integer \<open>n\<close> with
  \<open>n / 10 ^ f\<close> closest to the value, the larger one on a tie; values that are not finite
  or reach \<open>10 ^ 21\<close> print as \<open>toString\<close> does.
\<close>

definition padZeros :: "nat \<Rightarrow> string \<Rightarrow> string" where
  "padZeros w m = replicate (w - length m) CHR ''0'' @ m"

fun toFixed :: "nat \<Rightarrow> jsnum \<Rightarrow> string" where
  "toFixed f (Fin q) =
     (if 10 ^ 21 \<le> \<bar>q\<bar> then toString (Fin q)
      else
        (let n = \<lfloor>\<bar>q\<bar> * 10 ^ f + 1 / 2\<rfloor>;
             m = (if f = 0 then decimal n else padZeros (f + 1) (decimal n));
             k = length m
         in (if q < 0 then ''-'' else []) @
            (if f = 0 then m else take (k - f) m @ ''.'' @ drop (k - f) m)))"
| "toFixed f x = toString x"

subsection \<open>Strings to numbers\<close>

definition isWhite :: "char \<Rightarrow> bool" where
  "isWhite c = (of_char c \<in> {9, 10, 11, 12, 13, 32, 160 :: nat})"

definition isDigit :: "char \<Rightarrow> bool" where
  "isDigit c = (48 \<le> (of_char c :: nat) \<and> (of_char c :: nat) \<le> 57)"

text \<open>\<open>String.prototype.trim\<close>\<close>

definition trim :: "string \<Rightarrow> string" where
  "trim s = rev (dropWhile isWhite (rev (dropWhile isWhite s)))"

text \<open>The value of a digit string in a base; a letter counts from ten.\<close>

definition digitVal :: "char \<Rightarrow> int" where
  "digitVal c =
     (let v = int (of_char c) in
      if 97 \<le> v then v - 87 else if 65 \<le> v then v - 55 else v - 48)"

definition digitsVal :: "int \<Rightarrow> string \<Rightarrow> int" where
  "digitsVal b ds = foldl (\<lambda>acc c. acc * b + digitVal c) 0 ds"

text \<open>
  The longest prefix that is a \<open>StrUnsignedDecimalLiteral\<close> other than \<open>Infinity\<close>:
  digits, an optional point and digits (a digit on one side at least), and an exponent
  part when an exponent indicator is followed by an optionally signed digit. The result
  is the mathematical value and what is left of the string.
\<close>

definition scanExponent :: "string \<Rightarrow> int \<times> string" where
  "scanExponent r =
     (case r of
        [] \<Rightarrow> (0, r)
      | c # r1 \<Rightarrow>
          if c = CHR ''e'' \<or> c = CHR ''E'' then
            (let (neg, r2) = (case r1 of
                                [] \<Rightarrow> (False, r1)
                              | d # r' \<Rightarrow> if d = CHR ''-'' then (True, r')
                                          else if d = CHR ''+'' then (False, r')
                                          else (False, r1));
                 ed = takeWhile isDigit r2
             in if ed = [] then (0, r)
                else ((if neg then - digitsVal 10 ed else digitsVal 10 ed),
                      dropWhile isDigit r2))
          else (0, r))"

definition scanDecimal :: "string \<Rightarrow> (rat \<times> string) option" where
  "scanDecimal s =
     (let ip = takeWhile isDigit s; r1 = dropWhile isDigit s;
          (fp, r2) = (case r1 of
                        [] \<Rightarrow> ([], r1)
                      | c # r \<Rightarrow> if c = CHR ''.''
                                 then (takeWhile isDigit r, dropWhile isDigit r)
                                 else ([], r1))
      in if ip = [] \<and> fp = [] then None
         else (let (ex, r3) = scanExponent r2
               in Some (of_int (digitsVal 10 (ip @ fp)) * ipow 10 (ex - int (length fp)), r3)))"

definition scanSigned :: "string \<Rightarrow> (jsnum \<times> string) option" where
  "scanSigned s =
     (let (neg, body) = (case s of
                           [] \<Rightarrow> (False, s)
                         | c # r \<Rightarrow> if c = CHR ''-'' then (True, r)
                                    else if c = CHR ''+'' then (False, r)
                                    else (False, s))
      in if take 8 body = ''Infinity'' then Some ((if neg then NInf else PInf), drop 8 body)
         else (case scanDecimal body of
                 None \<Rightarrow> None
               | Some (v, rest) \<Rightarrow> Some (round64 (if neg then - v else v), rest)))"

text \<open>\<open>parseFloat\<close>: leading white space is skipped, what follows the literal is ignored.\<close>

definition parseFloat :: "string \<Rightarrow> jsnum" where
  "parseFloat s = (case scanSigned (dropWhile isWhite s) of None \<Rightarrow> NaN | Some (v, rest) \<Rightarrow> v)"

text \<open>
  \<open>ToNumber\<close> of a string (\<open>StringToNumber\<close>), which the global \<open>isNaN\<close> applies to its
  argument: the whole trimmed string must be a literal; the empty string is \<open>0\<close>, and
  unsigned hexadecimal, octal and binary integer literals are accepted too.
\<close>

definition isDigitOf :: "int \<Rightarrow> char \<Rightarrow> bool" where
  "isDigitOf b c =
     ((isDigit c \<or> (97 \<le> (of_char c :: nat) \<and> (of_char c :: nat) \<le> 102)
                \<or> (65 \<le> (of_char c :: nat) \<and> (of_char c :: nat) \<le> 70))
      \<and> digitVal c < b)"

definition nonDecimal :: "string \<Rightarrow> (int \<times> string) option" where
  "nonDecimal t =
     (case t of
        c0 # c1 # ds \<Rightarrow>
          if c0 = CHR ''0'' then
            (if c1 = CHR ''x'' \<or> c1 = CHR ''X'' then Some (16, ds)
             else if c1 = CHR ''o'' \<or> c1 = CHR ''O'' then Some (8, ds)
             else if c1 = CHR ''b'' \<or> c1 = CHR ''B'' then Some (2, ds)
             else None)
          else None
      | _ \<Rightarrow> None)"

definition stringToNumber :: "string \<Rightarrow> jsnum" where
  "stringToNumber s =
     (let t = trim s in
      if t = [] then Fin 0
      else (case nonDecimal t of
              Some (b, ds) \<Rightarrow>
                if ds \<noteq> [] \<and> list_all (isDigitOf b) ds
                then round64 (of_int (digitsVal b ds)) else NaN
            | None \<Rightarrow> (case scanSigned t of
                         Some (v, []) \<Rightarrow> v
                       | _ \<Rightarrow> NaN)))"

text \<open>The global \<open>isNaN\<close>, applied to a string and to a Number.\<close>

definition isNaN_string :: "string \<Rightarrow> bool" where
  "isNaN_string s = (stringToNumber s = NaN)"

definition isNaN :: "jsnum \<Rightarrow> bool" where
  "isNaN x = (x = NaN)"

section \<open>The calculator: numeric filter and formatting\<close>

text \<open>\<open>isNumeric(value)\<close>, lines 73 to 76.\<close>

definition isNumeric :: "string \<Rightarrow> bool" where
  "isNumeric v =
     (let cleanValue = trim v in
      \<not> isNaN_string cleanValue \<and> \<not> isNaN (parseFloat cleanValue) \<and> cleanValue \<noteq> [])"

text \<open>\<open>getNumericValue(content)\<close>, lines 78 to 81.\<close>

definition getNumericValue :: "string \<Rightarrow> jsnum" where
  "getNumericValue content = (let cleanValue = trim content in parseFloat cleanValue)"

text \<open>\<open>formatResult(value)\<close>, lines 149 to 157.\<close>

definition formatResult :: "jsnum \<Rightarrow> string" where
  "formatResult v =
     (if isInteger v then toString v else toString (parseFloat (toFixed 6 v)))"

section \<open>The canvas and its metadata store\<close>

text \<open>
  The board is the collaborator behind \<open>miro.board\<close>. Item identifiers are opaque; they
  are numbered here. An item carries the fields the program reads, its position and
  style apart, which play no part in what is computed or tracked.
\<close>

type_synonym item_id = nat

record item =
  itemId :: item_id
  itemType :: string
  content :: string

text \<open>An error object: the program reads nothing but its \<open>message\<close>, which may be absent.\<close>

record error =
  message :: "string option"

text \<open>The value kept for a calculator note in \<open>calculatorNotes\<close> (lines 121 to 127).\<close>

record calcData =
  calcType :: string
  operation :: string
  sourceIds :: "item_id list"
  operationSymbol :: string
  createdAt :: nat

text \<open>
  A JavaScript \<open>Map\<close> keeps its entries in insertion order with one entry for a key:
  an association list with \<open>set\<close>, \<open>delete\<close> and \<open>has\<close> as the language defines them.
\<close>

type_synonym note_map = "(item_id \<times> calcData) list"

fun mapSet :: "'k \<Rightarrow> 'v \<Rightarrow> ('k \<times> 'v) list \<Rightarrow> ('k \<times> 'v) list" where
  "mapSet k v [] = [(k, v)]"
| "mapSet k v ((k', v') # m) = (if k' = k then (k, v) # m else (k', v') # mapSet k v m)"

definition mapDelete :: "'k \<Rightarrow> ('k \<times> 'v) list \<Rightarrow> ('k \<times> 'v) list" where
  "mapDelete k m = filter (\<lambda>(k', v). k' \<noteq> k) m"

definition mapHas :: "'k \<Rightarrow> ('k \<times> 'v) list \<Rightarrow> bool" where
  "mapHas k m = (k \<in> fst ` set m)"

text \<open>\<open>new Map(entries)\<close>: the entries are set one after the other.\<close>

definition newMap :: "('k \<times> 'v) list \<Rightarrow> ('k \<times> 'v) list" where
  "newMap entries = foldl (\<lambda>m (k, v). mapSet k v m) [] entries"

text \<open>
  Every request to the board is recorded in \<open>calls\<close>, in order. A request fails when the
  board injects a fault for it (\<open>fault\<close>: any failure of the platform) or when it names an
  item the board does not hold (\<open>notFound\<close>: the error the platform raises then).
  \<open>metadata\<close> is the record stored under the key \<open>calculatorNotes\<close>: an object, that
  is its entries in order, or nothing.
\<close>

datatype call =
    GetItem item_id
  | CreateStickyNote string
  | UpdateItemTags item_id
  | UpdateItemContent item_id string
  | DeleteItem item_id
  | SetMetadata note_map
  | GetMetadata

record board =
  items :: "item_id \<Rightarrow> item option"
  metadata :: "note_map option"
  nextId :: item_id
  clock :: nat
  fault :: "call \<Rightarrow> error option"
  notFound :: error
  calls :: "call list"

definition logCall :: "call \<Rightarrow> board \<Rightarrow> board" where
  "logCall c b = b\<lparr>calls := calls b @ [c]\<rparr>"

definition getItem :: "item_id \<Rightarrow> board \<Rightarrow> (error + item) \<times> board" where
  "getItem i b =
     (case fault b (GetItem i) of
        Some e \<Rightarrow> (Inl e, logCall (GetItem i) b)
      | None \<Rightarrow>
          (case items b i of
             None \<Rightarrow> (Inl (notFound b), logCall (GetItem i) b)
           | Some it \<Rightarrow> (Inr it, logCall (GetItem i) b)))"

definition createStickyNote :: "string \<Rightarrow> board \<Rightarrow> (error + item) \<times> board" where
  "createStickyNote c b =
     (case fault b (CreateStickyNote c) of
        Some e \<Rightarrow> (Inl e, logCall (CreateStickyNote c) b)
      | None \<Rightarrow>
          (let it = \<lparr>itemId = nextId b, itemType = ''sticky_note'', content = c\<rparr>
           in (Inr it, logCall (CreateStickyNote c)
                         (b\<lparr>items := (items b)(nextId b \<mapsto> it), nextId := Suc (nextId b)\<rparr>))))"

definition updateItemTags :: "item_id \<Rightarrow> board \<Rightarrow> (error + unit) \<times> board" where
  "updateItemTags i b =
     (case fault b (UpdateItemTags i) of
        Some e \<Rightarrow> (Inl e, logCall (UpdateItemTags i) b)
      | None \<Rightarrow>
          (case items b i of
             None \<Rightarrow> (Inl (notFound b), logCall (UpdateItemTags i) b)
           | Some it \<Rightarrow> (Inr (), logCall (UpdateItemTags i) b)))"

definition updateItemContent :: "item_id \<Rightarrow> string \<Rightarrow> board \<Rightarrow> (error + unit) \<times> board" where
  "updateItemContent i c b =
     (case fault b (UpdateItemContent i c) of
        Some e \<Rightarrow> (Inl e, logCall (UpdateItemContent i c) b)
      | None \<Rightarrow>
          (case items b i of
             None \<Rightarrow> (Inl (notFound b), logCall (UpdateItemContent i c) b)
           | Some it \<Rightarrow>
               (Inr (), logCall (UpdateItemContent i c)
                          (b\<lparr>items := (items b)(i \<mapsto> it\<lparr>content := c\<rparr>)\<rparr>))))"

definition deleteItem :: "item_id \<Rightarrow> board \<Rightarrow> (error + unit) \<times> board" where
  "deleteItem i b =
     (case fault b (DeleteItem i) of
        Some e \<Rightarrow> (Inl e, logCall (DeleteItem i) b)
      | None \<Rightarrow>
          (case items b i of
             None \<Rightarrow> (Inl (notFound b), logCall (DeleteItem i) b)
           | Some it \<Rightarrow> (Inr (), logCall (DeleteItem i) (b\<lparr>items := (items b)(i := None)\<rparr>))))"

definition setMetadata :: "note_map \<Rightarrow> board \<Rightarrow> (error + unit) \<times> board" where
  "setMetadata d b =
     (case fault b (SetMetadata d) of
        Some e \<Rightarrow> (Inl e, logCall (SetMetadata d) b)
      | None \<Rightarrow> (Inr (), logCall (SetMetadata d) (b\<lparr>metadata := Some d\<rparr>)))"

definition getMetadata :: "board \<Rightarrow> (error + note_map option) \<times> board" where
  "getMetadata b =
     (case fault b GetMetadata of
        Some e \<Rightarrow> (Inl e, logCall GetMetadata b)
      | None \<Rightarrow> (Inr (metadata b), logCall GetMetadata b))"

section \<open>The calculator\<close>

text \<open>
  The object's fields (lines 3 and 4) and the status banner \<open>showStatus\<close> writes: its
  message and its type.
\<close>

record calculator =
  selectedItems :: "item list"
  calculatorNotes :: note_map
  status :: "(string \<times> string) option"

definition showStatus :: "string \<Rightarrow> string \<Rightarrow> calculator \<Rightarrow> calculator" where
  "showStatus msg ty st = st\<lparr>status := Some (msg, ty)\<rparr>"

text \<open>\<open>updateSelection\<close>, lines 37 to 47, on what \<open>getSelection\<close> answered.\<close>

definition updateSelection :: "error + item list \<Rightarrow> calculator \<Rightarrow> calculator" where
  "updateSelection sel st =
     (case sel of
        Inl e \<Rightarrow> st
      | Inr selection \<Rightarrow>
          st\<lparr>selectedItems :=
               filter (\<lambda>it. itemType it = ''sticky_note'' \<and> isNumeric (content it)) selection\<rparr>)"

text \<open>
  \<open>saveCalculatorNotesToMetadata\<close>, lines 241 to 248: the whole index is written; a
  failure is logged and goes no further.
\<close>

definition saveCalculatorNotesToMetadata :: "calculator \<Rightarrow> board \<Rightarrow> board" where
  "saveCalculatorNotesToMetadata st b =
     (case setMetadata (calculatorNotes st) b of
        (Inl e, b') \<Rightarrow> b'
      | (Inr u, b') \<Rightarrow> b')"

text \<open>
  The value of the local \<open>result\<close>, computed by the same statement at lines 97 to 103
  and at lines 219 to 223.
\<close>

definition computeResult :: "string \<Rightarrow> jsnum list \<Rightarrow> jsnum" where
  "computeResult op vals =
     (if op = ''sum'' then foldl (\<lambda>acc val. jsadd acc val) (Fin 0) vals
      else foldl (\<lambda>acc val. jsmul acc val) (Fin 1) vals)"

text \<open>The multiplication sign, code unit 215.\<close>

definition timesSign :: string where
  "timesSign = [char_of (215 :: nat)]"

text \<open>\<open>createCalculation(operation)\<close>, lines 83 to 147.\<close>

definition createCalculation :: "string \<Rightarrow> calculator \<Rightarrow> board \<Rightarrow> calculator \<times> board" where
  "createCalculation op st b =
     (if length (selectedItems st) < 2
      then (showStatus ''Please select at least 2 numeric sticky notes'' ''error'' st, b)
      else
        (let vals = map (\<lambda>it. getNumericValue (content it)) (selectedItems st);
             srcIds = map itemId (selectedItems st);
             res = computeResult op vals;
             opSymbol = (if op = ''sum'' then ''+'' else timesSign)
         in case createStickyNote (formatResult res) b of
              (Inl e, b1) \<Rightarrow>
                (showStatus ''Error creating calculation. Please try again.'' ''error'' st, b1)
            | (Inr calculatorNote, b1) \<Rightarrow>
                (let calculationData =
                       \<lparr>calcType = ''calculator'', operation = op, sourceIds = srcIds,
                        operationSymbol = opSymbol, createdAt = clock b1\<rparr>
                 in case updateItemTags (itemId calculatorNote) b1 of
                      (Inl e, b2) \<Rightarrow>
                        (showStatus ''Error creating calculation. Please try again.'' ''error'' st,
                         b2)
                    | (Inr u, b2) \<Rightarrow>
                        (let st1 = st\<lparr>calculatorNotes :=
                                        mapSet (itemId calculatorNote) calculationData
                                          (calculatorNotes st)\<rparr>;
                             b3 = saveCalculatorNotesToMetadata st1 b2
                         in (showStatus
                               ((if op = ''sum'' then ''Sum'' else ''Product'')
                                @ '' sticky note created successfully!'')
                               ''success'' st1,
                             b3)))))"

text \<open>\<open>handleItemsDelete(event)\<close>, lines 168 to 176, on the items of the event.\<close>

fun handleItemsDelete :: "item list \<Rightarrow> calculator \<Rightarrow> board \<Rightarrow> calculator \<times> board" where
  "handleItemsDelete [] st b = (st, b)"
| "handleItemsDelete (deletedItem # rest) st b =
     (if mapHas (itemId deletedItem) (calculatorNotes st)
      then (let st1 = st\<lparr>calculatorNotes := mapDelete (itemId deletedItem) (calculatorNotes st)\<rparr>
            in handleItemsDelete rest st1 (saveCalculatorNotesToMetadata st1 b))
      else handleItemsDelete rest st b)"

text \<open>
  \<open>updateCalculatorNote(calculatorId, calcData)\<close>, lines 187 to 239. First the loop of
  lines 190 to 201 over the source ids.
\<close>

fun sourceItemsOf :: "item_id list \<Rightarrow> board \<Rightarrow> item list \<times> board" where
  "sourceItemsOf [] b = ([], b)"
| "sourceItemsOf (sourceId # rest) b =
     (case getItem sourceId b of
        (Inl e, b1) \<Rightarrow> sourceItemsOf rest b1
      | (Inr it, b1) \<Rightarrow>
          (if itemType it = ''sticky_note'' \<and> isNumeric (content it)
           then (case sourceItemsOf rest b1 of (its, b2) \<Rightarrow> (it # its, b2))
           else sourceItemsOf rest b1))"

text \<open>\<open>'abc'.includes(p)\<close>: \<open>p\<close> occurs in the string.\<close>

fun includes_str :: "string \<Rightarrow> string \<Rightarrow> bool" where
  "includes_str [] p = (p = [])"
| "includes_str (c # cs) p = (take (length p) (c # cs) = p \<or> includes_str cs p)"

text \<open>The test of line 234: \<open>error.message && error.message.includes('not found')\<close>.\<close>

definition saysNotFound :: "error \<Rightarrow> bool" where
  "saysNotFound e =
     (case message e of None \<Rightarrow> False | Some m \<Rightarrow> m \<noteq> [] \<and> includes_str m ''not found'')"

definition updateCalculatorNote ::
  "item_id \<Rightarrow> calcData \<Rightarrow> calculator \<Rightarrow> board \<Rightarrow> calculator \<times> board" where
  "updateCalculatorNote calculatorId cd st b =
     (case sourceItemsOf (sourceIds cd) b of
        (sourceItems, b1) \<Rightarrow>
          if length sourceItems = 0 then
            (case deleteItem calculatorId b1 of
               (Inl e, b2) \<Rightarrow> (st, b2)
             | (Inr u, b2) \<Rightarrow>
                 (let st1 = st\<lparr>calculatorNotes := mapDelete calculatorId (calculatorNotes st)\<rparr>
                  in (st1, saveCalculatorNotesToMetadata st1 b2)))
          else
            (let vals = map (\<lambda>it. getNumericValue (content it)) sourceItems;
                 res = computeResult (operation cd) vals
             in case updateItemContent calculatorId (formatResult res) b1 of
                  (Inr u, b2) \<Rightarrow> (st, b2)
                | (Inl e, b2) \<Rightarrow>
                    if saysNotFound e then
                      (let st1 = st\<lparr>calculatorNotes :=
                                      mapDelete calculatorId (calculatorNotes st)\<rparr>
                       in (st1, saveCalculatorNotesToMetadata st1 b2))
                    else (st, b2)))"

text \<open>
  \<open>recalculateIfNeeded(updatedItemId)\<close>, lines 178 to 185. The loop runs over the entries
  of the live map; a visit removes no entry but the one visited, so every entry the map
  held at the start is visited.
\<close>

fun recalculateLoop ::
  "note_map \<Rightarrow> item_id \<Rightarrow> calculator \<Rightarrow> board \<Rightarrow> calculator \<times> board" where
  "recalculateLoop [] updatedItemId st b = (st, b)"
| "recalculateLoop ((calculatorId, cd) # rest) updatedItemId st b =
     (if updatedItemId \<in> set (sourceIds cd)
      then (case updateCalculatorNote calculatorId cd st b of
              (st1, b1) \<Rightarrow> recalculateLoop rest updatedItemId st1 b1)
      else recalculateLoop rest updatedItemId st b)"

definition recalculateIfNeeded :: "item_id \<Rightarrow> calculator \<Rightarrow> board \<Rightarrow> calculator \<times> board" where
  "recalculateIfNeeded updatedItemId st b =
     recalculateLoop (calculatorNotes st) updatedItemId st b"

text \<open>\<open>handleItemsUpdate(event)\<close>, lines 159 to 166.\<close>

fun handleItemsUpdate :: "item list \<Rightarrow> calculator \<Rightarrow> board \<Rightarrow> calculator \<times> board" where
  "handleItemsUpdate [] st b = (st, b)"
| "handleItemsUpdate (updatedItem # rest) st b =
     (if itemType updatedItem = ''sticky_note''
      then (case recalculateIfNeeded (itemId updatedItem) st b of
              (st1, b1) \<Rightarrow> handleItemsUpdate rest st1 b1)
      else handleItemsUpdate rest st b)"

text \<open>
  \<open>restoreCalculatorNotes\<close>, lines 250 to 280. The probes of lines 258 to 266 collect the
  ids whose item the board still returns.
\<close>

fun validIdsOf :: "item_id list \<Rightarrow> board \<Rightarrow> item_id list \<times> board" where
  "validIdsOf [] b = ([], b)"
| "validIdsOf (calculatorId # rest) b =
     (case getItem calculatorId b of
        (Inl e, b1) \<Rightarrow> validIdsOf rest b1
      | (Inr it, b1) \<Rightarrow> (case validIdsOf rest b1 of (ids, b2) \<Rightarrow> (calculatorId # ids, b2)))"

definition restoreCalculatorNotes :: "calculator \<Rightarrow> board \<Rightarrow> calculator \<times> board" where
  "restoreCalculatorNotes st b =
     (case getMetadata b of
        (Inl e, b1) \<Rightarrow> (st, b1)
      | (Inr None, b1) \<Rightarrow> (st, b1)
      | (Inr (Some d), b1) \<Rightarrow>
          (let st1 = st\<lparr>calculatorNotes := newMap d\<rparr>
           in case validIdsOf (map fst (calculatorNotes st1)) b1 of
                (validCalculatorIds, b2) \<Rightarrow>
                  (let validEntries =
                         filter (\<lambda>(i, cd). i \<in> set validCalculatorIds) (calculatorNotes st1);
                       st2 = st1\<lparr>calculatorNotes := newMap validEntries\<rparr>
                   in if length validEntries \<noteq> length d
                      then (st2, saveCalculatorNotesToMetadata st2 b2)
                      else (st2, b2))))"

section \<open>Notions used in the statements\<close>

text \<open>An integer as a Number.\<close>

definition intNum :: "int \<Rightarrow> jsnum" where
  "intNum v = Fin (of_int v)"

text \<open>The probe of an item answers when the board raises no fault and holds the item.\<close>

definition answers :: "board \<Rightarrow> item_id \<Rightarrow> bool" where
  "answers b i = (fault b (GetItem i) = None \<and> items b i \<noteq> None)"

text \<open>
  The working set of a recomputation: the items lines 190 to 201 collect. The content
  the recomputation writes back, and the content a creation gives the new note.
\<close>

definition workingSet :: "calcData \<Rightarrow> board \<Rightarrow> item list" where
  "workingSet cd b = fst (sourceItemsOf (sourceIds cd) b)"

definition newContent :: "calcData \<Rightarrow> board \<Rightarrow> string" where
  "newContent cd b =
     formatResult (computeResult (operation cd)
       (map (\<lambda>it. getNumericValue (content it)) (workingSet cd b)))"

definition selectedValues :: "calculator \<Rightarrow> jsnum list" where
  "selectedValues st = map (\<lambda>it. getNumericValue (content it)) (selectedItems st)"

definition noteContent :: "string \<Rightarrow> calculator \<Rightarrow> string" where
  "noteContent op st = formatResult (computeResult op (selectedValues st))"

definition newEntry :: "string \<Rightarrow> calculator \<Rightarrow> board \<Rightarrow> calcData" where
  "newEntry op st b =
     \<lparr>calcType = ''calculator'', operation = op, sourceIds = map itemId (selectedItems st),
      operationSymbol = (if op = ''sum'' then ''+'' else timesSign), createdAt = clock b\<rparr>"

text \<open>
  Example data: two numeric notes, a calculator note over them, and boards that hold
  them all, none of them, or the two sources only, and one whose content updates fail
  for a reason other than a missing item.
\<close>

definition exFour :: item where
  "exFour = \<lparr>itemId = 1, itemType = ''sticky_note'', content = ''4''\<rparr>"

definition exSix :: item where
  "exSix = \<lparr>itemId = 2, itemType = ''sticky_note'', content = ''6''\<rparr>"

definition exTen :: item where
  "exTen = \<lparr>itemId = 3, itemType = ''sticky_note'', content = ''10''\<rparr>"

definition exData :: calcData where
  "exData = \<lparr>calcType = ''calculator'', operation = ''sum'', sourceIds = [1, 2],
             operationSymbol = ''+'', createdAt = 1000\<rparr>"

definition exBoard :: board where
  "exBoard = \<lparr>items = [1 \<mapsto> exFour, 2 \<mapsto> exSix, 3 \<mapsto> exTen],
              metadata = Some [(3, exData)], nextId = 4, clock = 2000,
              fault = (\<lambda>c. None), notFound = \<lparr>message = Some ''Item not found''\<rparr>,
              calls = []\<rparr>"

definition exCalc :: calculator where
  "exCalc = \<lparr>selectedItems = [exFour, exSix], calculatorNotes = [(3, exData)], status = None\<rparr>"

definition exOrphanBoard :: board where
  "exOrphanBoard = exBoard\<lparr>items := Map.empty\<rparr>"

definition exLostBoard :: board where
  "exLostBoard = exBoard\<lparr>items := [1 \<mapsto> exFour, 2 \<mapsto> exSix]\<rparr>"

definition networkError :: error where
  "networkError = \<lparr>message = Some ''Network error''\<rparr>"

definition exNetBoard :: board where
  "exNetBoard =
     exBoard\<lparr>fault := (\<lambda>c. case c of UpdateItemContent i s \<Rightarrow> Some networkError | _ \<Rightarrow> None)\<rparr>"

definition exCreateFailBoard :: board where
  "exCreateFailBoard =
     exBoard\<lparr>fault := (\<lambda>c. case c of CreateStickyNote s \<Rightarrow> Some networkError | _ \<Rightarrow> None)\<rparr>"

text \<open>The example board when every probe of an item fails, for a reason other than a missing item.\<close>

definition exProbeFailBoard :: board where
  "exProbeFailBoard =
     exBoard\<lparr>fault := (\<lambda>c. case c of GetItem i \<Rightarrow> Some networkError | _ \<Rightarrow> None)\<rparr>"

definition exDecimalCalc :: calculator where
  "exDecimalCalc =
     \<lparr>selectedItems = [\<lparr>itemId = 1, itemType = ''sticky_note'', content = ''1.1''\<rparr>,
                        \<lparr>itemId = 2, itemType = ''sticky_note'', content = ''2.2''\<rparr>],
      calculatorNotes = [], status = None\<rparr>"

text \<open>
  The binary exponent of a value, bounded below by that of the subnormal range, and the
  spacing of the Numbers at that exponent. A rational is a Number when rounding leaves it
  as it is.
\<close>

definition expo :: "rat \<Rightarrow> int" where
  "expo q = max (magnitude 2 \<bar>q\<bar> - 1) (- 1022)"

definition ulp :: "rat \<Rightarrow> rat" where
  "ulp q = 2 powi (expo q - 52)"

definition jsneg :: "jsnum \<Rightarrow> jsnum" where
  "jsneg x = (case x of NaN \<Rightarrow> NaN | PInf \<Rightarrow> NInf | NInf \<Rightarrow> PInf | Fin q \<Rightarrow> Fin (- q))"

definition isNumber :: "rat \<Rightarrow> bool" where
  "isNumber q = (round64 q = Fin q)"

definition isNum :: "jsnum \<Rightarrow> bool" where
  "isNum v = (case v of Fin q \<Rightarrow> isNumber q | _ \<Rightarrow> True)"

text \<open>The exponent part that \<open>render\<close> writes.\<close>

definition expPart :: "int \<Rightarrow> string" where
  "expPart e = ''e'' @ (if e < 0 then ''-'' else ''+'') @ decimal \<bar>e\<bar>"

text \<open>
  The value \<open>toFixed\<close> prints with six fraction digits: the multiple of \<open>10 ^ -6\<close>
  closest to the value, a half going away from zero. A string with no fractional part:
  decimal digits after an optional minus sign.
\<close>

definition sixPlaces :: "rat \<Rightarrow> rat" where
  "sixPlaces q =
     (if q < 0 then - (of_int \<lfloor>\<bar>q\<bar> * 10 ^ 6 + 1 / 2\<rfloor> / 10 ^ 6)
      else of_int \<lfloor>\<bar>q\<bar> * 10 ^ 6 + 1 / 2\<rfloor> / 10 ^ 6)"

definition plainInteger :: "string \<Rightarrow> bool" where
  "plainInteger s =
     (case s of [] \<Rightarrow> False
      | c # cs \<Rightarrow> if c = CHR ''-'' then cs \<noteq> [] \<and> list_all isDigit cs else list_all isDigit s)"

text \<open>
  The rational a decimal literal denotes, read with the scanner of \<open>parseFloat\<close> before any
  rounding, when the literal is the whole string. A string that is not in exponent
  notation and has no zero at the end of its fraction digits.
\<close>

definition decimalValue :: "string \<Rightarrow> rat option" where
  "decimalValue s =
     (case s of [] \<Rightarrow> None
      | c # cs \<Rightarrow>
          if c = CHR ''-'' then (case scanDecimal cs of Some (v, []) \<Rightarrow> Some (- v) | _ \<Rightarrow> None)
          else (case scanDecimal s of Some (v, []) \<Rightarrow> Some v | _ \<Rightarrow> None))"

definition stripped :: "string \<Rightarrow> bool" where
  "stripped s = (CHR ''e'' \<notin> set s \<and> (CHR ''.'' \<in> set s \<longrightarrow> last s \<noteq> CHR ''0''))"

section \<open>Evaluations on the example data\<close>

lemma isNumeric_examples: "isNumeric ''4''" "isNumeric ''6''"
  by code_simp+

lemma content_examples:
  "formatResult (computeResult ''sum'' [getNumericValue ''4'', getNumericValue ''6'']) = ''10''"
  "formatResult (computeResult ''product'' [getNumericValue ''4'', getNumericValue ''6'']) = ''24''"
  "formatResult (computeResult ''average'' [getNumericValue ''4'', getNumericValue ''6'']) = ''24''"
  by code_simp+

lemma decimal_content_example:
  "formatResult (computeResult ''sum'' [getNumericValue ''1.1'', getNumericValue ''2.2'']) = ''3.3''"
  by code_simp

lemma decimal_sum_example:
  "toString (computeResult ''sum'' [getNumericValue ''1.1'', getNumericValue ''2.2'']) =
     ''3.3000000000000003''"
  by code_simp

lemma saysNotFound_examples:
  "\<not> saysNotFound networkError" "saysNotFound \<lparr>message = Some ''Item not found''\<rparr>"
  by code_simp+

lemma selectedValues_exCalc: "selectedValues exCalc = [getNumericValue ''4'', getNumericValue ''6'']"
  by (simp add: selectedValues_def exCalc_def exFour_def exSix_def)

lemma noteContent_examples:
  "noteContent ''sum'' exCalc = ''10''"
  "noteContent ''product'' exCalc = ''24''"
  "noteContent ''average'' exCalc = ''24''"
  "noteContent ''sum'' exDecimalCalc = ''3.3''"
  using content_examples decimal_content_example
  by (simp_all add: noteContent_def selectedValues_exCalc)
     (simp add: selectedValues_def exDecimalCalc_def)

section \<open>What the requests leave behind\<close>

lemma save_eq:
  "saveCalculatorNotesToMetadata st b =
     b\<lparr>calls := calls b @ [SetMetadata (calculatorNotes st)],
       metadata := (if fault b (SetMetadata (calculatorNotes st)) = None
                    then Some (calculatorNotes st) else metadata b)\<rparr>"
  by (simp add: saveCalculatorNotesToMetadata_def setMetadata_def logCall_def split: option.split)

lemma save_calls:
  "calls (saveCalculatorNotesToMetadata st b) = calls b @ [SetMetadata (calculatorNotes st)]"
  by (simp add: saveCalculatorNotesToMetadata_def setMetadata_def logCall_def split: option.split)

lemma save_metadata:
  "metadata (saveCalculatorNotesToMetadata st b) =
     (if fault b (SetMetadata (calculatorNotes st)) = None then Some (calculatorNotes st)
      else metadata b)"
  by (simp add: saveCalculatorNotesToMetadata_def setMetadata_def logCall_def split: option.split)

lemma getItem_eq:
  "getItem i b =
     ((if fault b (GetItem i) = None
       then (case items b i of None \<Rightarrow> Inl (notFound b) | Some it \<Rightarrow> Inr it)
       else Inl (the (fault b (GetItem i)))),
      b\<lparr>calls := calls b @ [GetItem i]\<rparr>)"
  by (auto simp add: getItem_def logCall_def split: option.split)

lemma sourceItemsOf_board:
  "snd (sourceItemsOf ids b) = b\<lparr>calls := calls b @ map GetItem ids\<rparr>"
proof (induction ids arbitrary: b)
  case Nil
  show ?case by simp
next
  case (Cons i ids)
  obtain r b1 where g: "getItem i b = (r, b1)" by (cases "getItem i b")
  then have b1: "b1 = b\<lparr>calls := calls b @ [GetItem i]\<rparr>"
    by (simp add: getItem_eq)
  show ?case using Cons.IH [of b1]
    by (auto simp add: g b1 split: sum.split prod.split)
qed

lemma answers_calls_irrelevant: "answers (b\<lparr>calls := cs\<rparr>) i = answers b i"
  by (simp add: answers_def)

lemma validIdsOf_eq:
  "validIdsOf ids b = (filter (answers b) ids, b\<lparr>calls := calls b @ map GetItem ids\<rparr>)"
proof (induction ids arbitrary: b)
  case Nil
  show ?case by simp
next
  case (Cons i ids)
  have ih: "validIdsOf ids (b\<lparr>calls := calls b @ [GetItem i]\<rparr>) =
              (filter (answers b) ids, b\<lparr>calls := calls b @ GetItem i # map GetItem ids\<rparr>)"
    using Cons.IH [of "b\<lparr>calls := calls b @ [GetItem i]\<rparr>"]
    by (simp add: answers_calls_irrelevant [abs_def] answers_def [abs_def])
  show ?case
    by (auto simp add: getItem_eq ih answers_def [abs_def] split: option.split)
qed

section \<open>Deletion events\<close>

lemma handleItemsDelete_one:
  "handleItemsDelete [x] st b =
     (if itemId x \<in> fst ` set (calculatorNotes st)
      then (st\<lparr>calculatorNotes := filter (\<lambda>(k, v). k \<noteq> itemId x) (calculatorNotes st)\<rparr>,
            b\<lparr>calls := calls b @ [SetMetadata (filter (\<lambda>(k, v). k \<noteq> itemId x) (calculatorNotes st))],
              metadata :=
                (if fault b (SetMetadata (filter (\<lambda>(k, v). k \<noteq> itemId x) (calculatorNotes st))) = None
                 then Some (filter (\<lambda>(k, v). k \<noteq> itemId x) (calculatorNotes st))
                 else metadata b)\<rparr>)
      else (st, b))"
  by (simp add: mapHas_def mapDelete_def saveCalculatorNotesToMetadata_def setMetadata_def
      logCall_def Let_def split: option.split)

lemma handleItemsDelete_step:
  "handleItemsDelete (x # xs) st b =
     handleItemsDelete xs (fst (handleItemsDelete [x] st b)) (snd (handleItemsDelete [x] st b))"
  by (simp add: Let_def)

lemma filter_without:
  "filter (\<lambda>(k, v). k \<notin> S) (filter (\<lambda>(k, v). k \<noteq> i) m) = filter (\<lambda>(k, v). k \<notin> insert i S) m"
  by (induction m) auto

lemma filter_absent:
  "i \<notin> fst ` set m \<Longrightarrow> filter (\<lambda>(k, v). k \<notin> insert i S) m = filter (\<lambda>(k, v). k \<notin> S) m"
  by (rule filter_cong) (auto simp add: rev_image_eqI)

lemma ids_Cons: "itemId ` set (x # xs) = insert (itemId x) (itemId ` set xs)"
  by simp

lemma handleItemsDelete_index:
  "fst (handleItemsDelete xs st b) =
     st\<lparr>calculatorNotes := filter (\<lambda>(k, v). k \<notin> itemId ` set xs) (calculatorNotes st)\<rparr>"
proof (induction xs arbitrary: st b)
  case Nil
  show ?case by simp
next
  case (Cons x xs)
  let ?m = "calculatorNotes st"
  show ?case
  proof (cases "itemId x \<in> fst ` set ?m")
    case True
    let ?m1 = "filter (\<lambda>(k, v). k \<noteq> itemId x) ?m"
    let ?st1 = "st\<lparr>calculatorNotes := ?m1\<rparr>"
    have e: "handleItemsDelete (x # xs) st b =
               handleItemsDelete xs ?st1 (saveCalculatorNotesToMetadata ?st1 b)"
      using True by (simp add: mapHas_def mapDelete_def Let_def)
    have "fst (handleItemsDelete (x # xs) st b) =
            ?st1\<lparr>calculatorNotes := filter (\<lambda>(k, v). k \<notin> itemId ` set xs) (calculatorNotes ?st1)\<rparr>"
      unfolding e by (rule Cons.IH)
    also have "\<dots> = st\<lparr>calculatorNotes := filter (\<lambda>(k, v). k \<notin> itemId ` set xs) ?m1\<rparr>" by simp
    also have "filter (\<lambda>(k, v). k \<notin> itemId ` set xs) ?m1
                 = filter (\<lambda>(k, v). k \<notin> itemId ` set (x # xs)) ?m"
      unfolding ids_Cons by (rule filter_without)
    finally show ?thesis .
  next
    case False
    have e: "handleItemsDelete (x # xs) st b = handleItemsDelete xs st b"
      using False by (simp add: mapHas_def)
    have "filter (\<lambda>(k, v). k \<notin> itemId ` set (x # xs)) ?m
            = filter (\<lambda>(k, v). k \<notin> itemId ` set xs) ?m"
      unfolding ids_Cons using False by (rule filter_absent)
    then show ?thesis unfolding e by (simp only: Cons.IH)
  qed
qed

lemma handleItemsDelete_untracked:
  "itemId ` set xs \<inter> fst ` set (calculatorNotes st) = {} \<Longrightarrow> handleItemsDelete xs st b = (st, b)"
  by (induction xs) (auto simp add: mapHas_def)

lemma filter_untracked:
  "S \<inter> fst ` set m = {} \<Longrightarrow> filter (\<lambda>(k, v). k \<notin> S) m = m"
  by (induction m) auto

lemma handleItemsDelete_saves:
  "itemId ` set xs \<inter> fst ` set (calculatorNotes st) \<noteq> {} \<Longrightarrow>
     (\<exists>ds. calls (snd (handleItemsDelete xs st b)) =
              calls b @ map SetMetadata ds
                @ [SetMetadata (filter (\<lambda>(k, v). k \<notin> itemId ` set xs) (calculatorNotes st))])
     \<and> (fault b (SetMetadata (filter (\<lambda>(k, v). k \<notin> itemId ` set xs) (calculatorNotes st))) = None \<longrightarrow>
          metadata (snd (handleItemsDelete xs st b)) =
            Some (filter (\<lambda>(k, v). k \<notin> itemId ` set xs) (calculatorNotes st)))
     \<and> fault (snd (handleItemsDelete xs st b)) = fault b"
proof (induction xs arbitrary: st b)
  case Nil
  then show ?case by simp
next
  case (Cons x xs)
  let ?m = "calculatorNotes st"
  show ?case
  proof (cases "itemId x \<in> fst ` set ?m")
    case False
    then have t: "itemId ` set xs \<inter> fst ` set ?m \<noteq> {}" using Cons.prems by auto
    have e: "handleItemsDelete (x # xs) st b = handleItemsDelete xs st b"
      using False by (simp add: mapHas_def)
    have g: "filter (\<lambda>(k, v). k \<notin> itemId ` set (x # xs)) ?m
               = filter (\<lambda>(k, v). k \<notin> itemId ` set xs) ?m"
      unfolding ids_Cons using False by (rule filter_absent)
    show ?thesis unfolding e g using Cons.IH [OF t, of b] .
  next
    case True
    let ?m1 = "filter (\<lambda>(k, v). k \<noteq> itemId x) ?m"
    let ?st1 = "st\<lparr>calculatorNotes := ?m1\<rparr>"
    let ?b1 = "saveCalculatorNotesToMetadata ?st1 b"
    have e: "handleItemsDelete (x # xs) st b = handleItemsDelete xs ?st1 ?b1"
      using True by (simp add: mapHas_def mapDelete_def Let_def)
    have f: "filter (\<lambda>(k, v). k \<notin> itemId ` set (x # xs)) ?m
             = filter (\<lambda>(k, v). k \<notin> itemId ` set xs) ?m1"
      unfolding ids_Cons by (rule filter_without [symmetric])
    have b1: "calls ?b1 = calls b @ [SetMetadata ?m1]" "fault ?b1 = fault b"
      "metadata ?b1 = (if fault b (SetMetadata ?m1) = None then Some ?m1 else metadata b)"
      by (simp_all add: save_eq)
    show ?thesis
    proof (cases "itemId ` set xs \<inter> fst ` set ?m1 = {}")
      case True
      have r: "handleItemsDelete xs ?st1 ?b1 = (?st1, ?b1)"
        using True by (intro handleItemsDelete_untracked) simp
      have g: "filter (\<lambda>(k, v). k \<notin> itemId ` set xs) ?m1 = ?m1"
        using True by (rule filter_untracked)
      have "calls ?b1 = calls b @ map SetMetadata [] @ [SetMetadata ?m1]" by (simp add: b1)
      then have "\<exists>ds. calls ?b1 = calls b @ map SetMetadata ds @ [SetMetadata ?m1]" by (rule exI)
      then show ?thesis unfolding e f r g using b1(2,3) by simp
    next
      case False
      then have t: "itemId ` set xs \<inter> fst ` set (calculatorNotes ?st1) \<noteq> {}" by simp
      from Cons.IH [OF t, of ?b1]
      obtain ds where c: "calls (snd (handleItemsDelete xs ?st1 ?b1)) =
              calls ?b1 @ map SetMetadata ds
                @ [SetMetadata (filter (\<lambda>(k, v). k \<notin> itemId ` set xs) ?m1)]"
        and md: "fault ?b1 (SetMetadata (filter (\<lambda>(k, v). k \<notin> itemId ` set xs) ?m1)) = None \<longrightarrow>
          metadata (snd (handleItemsDelete xs ?st1 ?b1)) =
            Some (filter (\<lambda>(k, v). k \<notin> itemId ` set xs) ?m1)"
        and fl: "fault (snd (handleItemsDelete xs ?st1 ?b1)) = fault ?b1"
        by auto
      have "calls (snd (handleItemsDelete xs ?st1 ?b1)) =
              calls b @ map SetMetadata (?m1 # ds)
                @ [SetMetadata (filter (\<lambda>(k, v). k \<notin> itemId ` set xs) ?m1)]"
        using c by (simp add: b1)
      then have "\<exists>ds'. calls (snd (handleItemsDelete xs ?st1 ?b1)) =
              calls b @ map SetMetadata ds'
                @ [SetMetadata (filter (\<lambda>(k, v). k \<notin> itemId ` set xs) ?m1)]" by (rule exI)
      then show ?thesis unfolding e f using md fl b1(2) by simp
    qed
  qed
qed

text \<open>
  C9. A deletion event for one item \<open>x\<close>: when \<open>x\<close> is a tracked calculator note, its
  entry and no other leaves the index, the entries that stay keep their values and their
  order, and the index is written to the metadata store: that write is the only request
  made, and the store holds the new index unless the write fails. When \<open>x\<close> is not a
  tracked calculator note, be it a source of some calculator note or not, the calculator
  and the board stay as they are: the index is untouched and no request is made, so
  nothing is recomputed. An event that delivers several items handles them one after
  the other. Whatever the items \<open>xs\<close> of the event, the index afterwards is the index
  before without the entries of the ids delivered, every other entry unchanged and in
  its place. When none of the ids delivered is tracked, nothing changes and no request is
  made. When one of them is tracked, only writes of the index are requested, the last
  of them writes the final index, and the store holds the final index unless that write
  fails.
\<close>

theorem handleItemsDelete_event:
  "handleItemsDelete [x] st b =
     (if itemId x \<in> fst ` set (calculatorNotes st)
      then (st\<lparr>calculatorNotes := filter (\<lambda>(k, v). k \<noteq> itemId x) (calculatorNotes st)\<rparr>,
            b\<lparr>calls := calls b @ [SetMetadata (filter (\<lambda>(k, v). k \<noteq> itemId x) (calculatorNotes st))],
              metadata :=
                (if fault b (SetMetadata (filter (\<lambda>(k, v). k \<noteq> itemId x) (calculatorNotes st))) = None
                 then Some (filter (\<lambda>(k, v). k \<noteq> itemId x) (calculatorNotes st))
                 else metadata b)\<rparr>)
      else (st, b))
   \<and> handleItemsDelete (x # xs) st b =
       handleItemsDelete xs (fst (handleItemsDelete [x] st b)) (snd (handleItemsDelete [x] st b))
   \<and> fst (handleItemsDelete xs st b) =
       st\<lparr>calculatorNotes := filter (\<lambda>(k, v). k \<notin> itemId ` set xs) (calculatorNotes st)\<rparr>
   \<and> (itemId ` set xs \<inter> fst ` set (calculatorNotes st) = {} \<longrightarrow>
        handleItemsDelete xs st b = (st, b))
   \<and> (itemId ` set xs \<inter> fst ` set (calculatorNotes st) \<noteq> {} \<longrightarrow>
        (\<exists>ds. calls (snd (handleItemsDelete xs st b)) =
                calls b @ map SetMetadata ds
                  @ [SetMetadata (filter (\<lambda>(k, v). k \<notin> itemId ` set xs) (calculatorNotes st))])
        \<and> (fault b (SetMetadata (filter (\<lambda>(k, v). k \<notin> itemId ` set xs) (calculatorNotes st))) = None \<longrightarrow>
             metadata (snd (handleItemsDelete xs st b)) =
               Some (filter (\<lambda>(k, v). k \<notin> itemId ` set xs) (calculatorNotes st))))"
proof (intro conjI impI)
  show "handleItemsDelete [x] st b =
     (if itemId x \<in> fst ` set (calculatorNotes st)
      then (st\<lparr>calculatorNotes := filter (\<lambda>(k, v). k \<noteq> itemId x) (calculatorNotes st)\<rparr>,
            b\<lparr>calls := calls b @ [SetMetadata (filter (\<lambda>(k, v). k \<noteq> itemId x) (calculatorNotes st))],
              metadata :=
                (if fault b (SetMetadata (filter (\<lambda>(k, v). k \<noteq> itemId x) (calculatorNotes st))) = None
                 then Some (filter (\<lambda>(k, v). k \<noteq> itemId x) (calculatorNotes st))
                 else metadata b)\<rparr>)
      else (st, b))"
    by (rule handleItemsDelete_one)
  show "handleItemsDelete (x # xs) st b =
       handleItemsDelete xs (fst (handleItemsDelete [x] st b)) (snd (handleItemsDelete [x] st b))"
    by (rule handleItemsDelete_step)
  show "fst (handleItemsDelete xs st b) =
       st\<lparr>calculatorNotes := filter (\<lambda>(k, v). k \<notin> itemId ` set xs) (calculatorNotes st)\<rparr>"
    by (rule handleItemsDelete_index)
next
  assume "itemId ` set xs \<inter> fst ` set (calculatorNotes st) = {}"
  then show "handleItemsDelete xs st b = (st, b)" by (rule handleItemsDelete_untracked)
next
  assume t: "itemId ` set xs \<inter> fst ` set (calculatorNotes st) \<noteq> {}"
  show "\<exists>ds. calls (snd (handleItemsDelete xs st b)) =
                calls b @ map SetMetadata ds
                  @ [SetMetadata (filter (\<lambda>(k, v). k \<notin> itemId ` set xs) (calculatorNotes st))]"
    using handleItemsDelete_saves [OF t, of b] by blast
next
  assume t: "itemId ` set xs \<inter> fst ` set (calculatorNotes st) \<noteq> {}"
    and f: "fault b (SetMetadata (filter (\<lambda>(k, v). k \<notin> itemId ` set xs) (calculatorNotes st))) = None"
  show "metadata (snd (handleItemsDelete xs st b)) =
               Some (filter (\<lambda>(k, v). k \<notin> itemId ` set xs) (calculatorNotes st))"
    using handleItemsDelete_saves [OF t, of b] f by blast
qed

text \<open>
  On the example: deleting the calculator note empties the index and the store; deleting
  a source, or both sources, changes nothing; an event that delivers a source and the
  calculator note empties the index and the store.
\<close>

theorem handleItemsDelete_event_witness:
  "fst (handleItemsDelete [exTen] exCalc exBoard) = exCalc\<lparr>calculatorNotes := []\<rparr> \<and>
   metadata (snd (handleItemsDelete [exTen] exCalc exBoard)) = Some [] \<and>
   calls (snd (handleItemsDelete [exTen] exCalc exBoard)) = [SetMetadata []] \<and>
   handleItemsDelete [exFour] exCalc exBoard = (exCalc, exBoard) \<and>
   handleItemsDelete [exFour, exSix] exCalc exBoard = (exCalc, exBoard) \<and>
   fst (handleItemsDelete [exFour, exTen] exCalc exBoard) = exCalc\<lparr>calculatorNotes := []\<rparr> \<and>
   metadata (snd (handleItemsDelete [exFour, exTen] exCalc exBoard)) = Some []"
proof -
  have one: "fst (handleItemsDelete [exTen] exCalc exBoard) = exCalc\<lparr>calculatorNotes := []\<rparr> \<and>
   metadata (snd (handleItemsDelete [exTen] exCalc exBoard)) = Some [] \<and>
   calls (snd (handleItemsDelete [exTen] exCalc exBoard)) = [SetMetadata []] \<and>
   handleItemsDelete [exFour] exCalc exBoard = (exCalc, exBoard)"
    using handleItemsDelete_event [of exTen exCalc exBoard "[]"]
      handleItemsDelete_event [of exFour exCalc exBoard "[]"]
    by (simp add: exTen_def exFour_def exCalc_def exBoard_def)
  have two: "handleItemsDelete [exFour, exSix] exCalc exBoard = (exCalc, exBoard)"
    using handleItemsDelete_event [of exFour exCalc exBoard "[exFour, exSix]"]
    by (simp add: exFour_def exSix_def exCalc_def exBoard_def)
  have three: "fst (handleItemsDelete [exFour, exTen] exCalc exBoard) = exCalc\<lparr>calculatorNotes := []\<rparr> \<and>
   metadata (snd (handleItemsDelete [exFour, exTen] exCalc exBoard)) = Some []"
    using handleItemsDelete_event [of exFour exCalc exBoard "[exFour, exTen]"]
    by (simp add: exFour_def exTen_def exCalc_def exBoard_def)
  show ?thesis using one two three by simp
qed

section \<open>Creating a calculation\<close>

lemma createCalculation_few:
  "length (selectedItems st) < 2 \<Longrightarrow>
   createCalculation op st b =
     (st\<lparr>status := Some (''Please select at least 2 numeric sticky notes'', ''error'')\<rparr>, b)"
  by (simp add: createCalculation_def showStatus_def)

lemma createCalculation_create_fails:
  "2 \<le> length (selectedItems st) \<Longrightarrow> fault b (CreateStickyNote (noteContent op st)) = Some e \<Longrightarrow>
   createCalculation op st b =
     (st\<lparr>status := Some (''Error creating calculation. Please try again.'', ''error'')\<rparr>,
      b\<lparr>calls := calls b @ [CreateStickyNote (noteContent op st)]\<rparr>)"
  by (simp add: createCalculation_def showStatus_def noteContent_def selectedValues_def
      createStickyNote_def logCall_def Let_def)

lemma createCalculation_tag_fails:
  "2 \<le> length (selectedItems st) \<Longrightarrow> fault b (CreateStickyNote (noteContent op st)) = None \<Longrightarrow>
   fault b (UpdateItemTags (nextId b)) = Some e \<Longrightarrow>
   createCalculation op st b =
     (st\<lparr>status := Some (''Error creating calculation. Please try again.'', ''error'')\<rparr>,
      b\<lparr>items := (items b)(nextId b \<mapsto>
                 \<lparr>itemId = nextId b, itemType = ''sticky_note'', content = noteContent op st\<rparr>),
        nextId := Suc (nextId b),
        calls := calls b @ [CreateStickyNote (noteContent op st), UpdateItemTags (nextId b)]\<rparr>)"
  by (simp add: createCalculation_def showStatus_def noteContent_def selectedValues_def
      createStickyNote_def updateItemTags_def logCall_def Let_def)

lemma createCalculation_succeeds:
  "2 \<le> length (selectedItems st) \<Longrightarrow> fault b (CreateStickyNote (noteContent op st)) = None \<Longrightarrow>
   fault b (UpdateItemTags (nextId b)) = None \<Longrightarrow>
   createCalculation op st b =
     (st\<lparr>calculatorNotes := mapSet (nextId b) (newEntry op st b) (calculatorNotes st),
         status := Some ((if op = ''sum'' then ''Sum'' else ''Product'')
                         @ '' sticky note created successfully!'', ''success'')\<rparr>,
      b\<lparr>items := (items b)(nextId b \<mapsto>
                 \<lparr>itemId = nextId b, itemType = ''sticky_note'', content = noteContent op st\<rparr>),
        nextId := Suc (nextId b),
        calls := calls b @ [CreateStickyNote (noteContent op st), UpdateItemTags (nextId b),
                            SetMetadata (mapSet (nextId b) (newEntry op st b) (calculatorNotes st))],
        metadata :=
          (if fault b (SetMetadata (mapSet (nextId b) (newEntry op st b) (calculatorNotes st))) = None
           then Some (mapSet (nextId b) (newEntry op st b) (calculatorNotes st))
           else metadata b)\<rparr>)"
  by (simp add: createCalculation_def showStatus_def noteContent_def selectedValues_def newEntry_def
      createStickyNote_def updateItemTags_def logCall_def Let_def
      saveCalculatorNotesToMetadata_def setMetadata_def split: option.split)

lemma createCalculation_cases:
  obtains (few) "length (selectedItems st) < 2"
  | (create_fails) e where "2 \<le> length (selectedItems st)"
      "fault b (CreateStickyNote (noteContent op st)) = Some e"
  | (tag_fails) e where "2 \<le> length (selectedItems st)"
      "fault b (CreateStickyNote (noteContent op st)) = None"
      "fault b (UpdateItemTags (nextId b)) = Some e"
  | (succeeds) "2 \<le> length (selectedItems st)"
      "fault b (CreateStickyNote (noteContent op st)) = None"
      "fault b (UpdateItemTags (nextId b)) = None"
  by (cases "length (selectedItems st) < 2";
      cases "fault b (CreateStickyNote (noteContent op st))";
      cases "fault b (UpdateItemTags (nextId b))") auto

lemma createCalculation_calls:
  assumes "2 \<le> length (selectedItems st)"
  shows "\<exists>rest. calls (snd (createCalculation op st b)) =
            calls b @ CreateStickyNote (noteContent op st) # rest"
proof (cases rule: createCalculation_cases [where st = st and b = b and op = op])
  case few
  then show ?thesis using assms by simp
next
  case (create_fails e)
  then show ?thesis by (simp add: createCalculation_create_fails)
next
  case (tag_fails e)
  then show ?thesis by (simp add: createCalculation_tag_fails)
next
  case succeeds
  then show ?thesis by (simp add: createCalculation_succeeds)
qed

text \<open>
  C3. With fewer than two selected numeric items, \<open>createCalculation\<close> only shows an
  error: the index is as before and the board has received no request, so no item was
  created. When the creation request fails, the index is as before as well, an error is
  shown, and the board holds what it held (the failed request is all it has seen).
  And whenever the index differs after the call, the one new entry is keyed by the item
  the board created in this very call, which the board then holds with the computed
  content: no entry is registered for an item that was never created.
\<close>

theorem createCalculation_registers_only_created:
  "(length (selectedItems st) < 2 \<longrightarrow>
      createCalculation op st b =
        (st\<lparr>status := Some (''Please select at least 2 numeric sticky notes'', ''error'')\<rparr>, b))
   \<and> (2 \<le> length (selectedItems st) \<and> fault b (CreateStickyNote (noteContent op st)) = Some e \<longrightarrow>
      createCalculation op st b =
        (st\<lparr>status := Some (''Error creating calculation. Please try again.'', ''error'')\<rparr>,
         b\<lparr>calls := calls b @ [CreateStickyNote (noteContent op st)]\<rparr>))
   \<and> (calculatorNotes (fst (createCalculation op st b)) \<noteq> calculatorNotes st \<longrightarrow>
      fault b (CreateStickyNote (noteContent op st)) = None
      \<and> items (snd (createCalculation op st b)) (nextId b) =
          Some \<lparr>itemId = nextId b, itemType = ''sticky_note'', content = noteContent op st\<rparr>
      \<and> calculatorNotes (fst (createCalculation op st b)) =
          mapSet (nextId b) (newEntry op st b) (calculatorNotes st))"
proof (intro conjI impI)
  assume "length (selectedItems st) < 2"
  then show "createCalculation op st b =
        (st\<lparr>status := Some (''Please select at least 2 numeric sticky notes'', ''error'')\<rparr>, b)"
    by (rule createCalculation_few)
next
  assume "2 \<le> length (selectedItems st) \<and> fault b (CreateStickyNote (noteContent op st)) = Some e"
  then show "createCalculation op st b =
        (st\<lparr>status := Some (''Error creating calculation. Please try again.'', ''error'')\<rparr>,
         b\<lparr>calls := calls b @ [CreateStickyNote (noteContent op st)]\<rparr>)"
    by (simp add: createCalculation_create_fails)
next
  assume ch: "calculatorNotes (fst (createCalculation op st b)) \<noteq> calculatorNotes st"
  have "fault b (CreateStickyNote (noteContent op st)) = None
      \<and> items (snd (createCalculation op st b)) (nextId b) =
          Some \<lparr>itemId = nextId b, itemType = ''sticky_note'', content = noteContent op st\<rparr>
      \<and> calculatorNotes (fst (createCalculation op st b)) =
          mapSet (nextId b) (newEntry op st b) (calculatorNotes st)"
  proof (cases rule: createCalculation_cases [where st = st and b = b and op = op])
    case few
    then show ?thesis using ch by (simp add: createCalculation_few)
  next
    case (create_fails e)
    then show ?thesis using ch by (simp add: createCalculation_create_fails)
  next
    case (tag_fails e)
    then show ?thesis using ch by (simp add: createCalculation_tag_fails)
  next
    case succeeds
    then show ?thesis by (simp add: createCalculation_succeeds)
  qed
  then show "fault b (CreateStickyNote (noteContent op st)) = None"
    and "items (snd (createCalculation op st b)) (nextId b) =
          Some \<lparr>itemId = nextId b, itemType = ''sticky_note'', content = noteContent op st\<rparr>"
    and "calculatorNotes (fst (createCalculation op st b)) =
          mapSet (nextId b) (newEntry op st b) (calculatorNotes st)"
    by simp_all
qed

text \<open>
  On the example: one selected note is rejected, a failing creation leaves the index
  alone, and a creation that goes through registers the note the board now holds.
\<close>

theorem createCalculation_registers_only_created_witness:
  "createCalculation ''sum'' (exCalc\<lparr>selectedItems := [exFour]\<rparr>) exBoard =
     (exCalc\<lparr>selectedItems := [exFour],
            status := Some (''Please select at least 2 numeric sticky notes'', ''error'')\<rparr>,
      exBoard)
   \<and> createCalculation ''sum'' exCalc exCreateFailBoard =
     (exCalc\<lparr>status := Some (''Error creating calculation. Please try again.'', ''error'')\<rparr>,
      exCreateFailBoard\<lparr>calls := [CreateStickyNote ''10'']\<rparr>)
   \<and> items (snd (createCalculation ''sum'' exCalc exBoard)) 4 =
       Some \<lparr>itemId = 4, itemType = ''sticky_note'', content = ''10''\<rparr>
   \<and> calculatorNotes (fst (createCalculation ''sum'' exCalc exBoard)) =
       [(3, exData), (4, newEntry ''sum'' exCalc exBoard)]"
proof -
  have few: "length (selectedItems (exCalc\<lparr>selectedItems := [exFour]\<rparr>)) < 2" by simp
  have two: "2 \<le> length (selectedItems exCalc)" by (simp add: exCalc_def)
  have fails: "fault exCreateFailBoard (CreateStickyNote (noteContent ''sum'' exCalc)) =
                 Some networkError"
    by (simp add: exCreateFailBoard_def)
  have changed: "calculatorNotes (fst (createCalculation ''sum'' exCalc exBoard)) \<noteq>
                   calculatorNotes exCalc"
    using two by (simp add: createCalculation_succeeds exBoard_def)
                 (simp add: exCalc_def)
  show ?thesis
    using createCalculation_registers_only_created
            [of "exCalc\<lparr>selectedItems := [exFour]\<rparr>" "''sum''" exBoard networkError]
          createCalculation_registers_only_created
            [of exCalc "''sum''" exCreateFailBoard networkError]
          createCalculation_registers_only_created [of exCalc "''sum''" exBoard networkError]
          few two fails changed
    by (simp add: noteContent_examples)
       (simp add: exCalc_def exBoard_def exCreateFailBoard_def)
qed

section \<open>Recomputing a calculator note\<close>

lemma updateCalculatorNote_eq:
  "updateCalculatorNote cid cd st b =
     (if workingSet cd b = [] then
        (case deleteItem cid (b\<lparr>calls := calls b @ map GetItem (sourceIds cd)\<rparr>) of
           (Inl e, b2) \<Rightarrow> (st, b2)
         | (Inr u, b2) \<Rightarrow>
             (st\<lparr>calculatorNotes := mapDelete cid (calculatorNotes st)\<rparr>,
              saveCalculatorNotesToMetadata
                (st\<lparr>calculatorNotes := mapDelete cid (calculatorNotes st)\<rparr>) b2))
      else
        (case updateItemContent cid (newContent cd b)
                (b\<lparr>calls := calls b @ map GetItem (sourceIds cd)\<rparr>) of
           (Inr u, b2) \<Rightarrow> (st, b2)
         | (Inl e, b2) \<Rightarrow>
             if saysNotFound e then
               (st\<lparr>calculatorNotes := mapDelete cid (calculatorNotes st)\<rparr>,
                saveCalculatorNotesToMetadata
                  (st\<lparr>calculatorNotes := mapDelete cid (calculatorNotes st)\<rparr>) b2)
             else (st, b2)))"
proof -
  obtain W b1 where s: "sourceItemsOf (sourceIds cd) b = (W, b1)"
    by (cases "sourceItemsOf (sourceIds cd) b")
  have W: "W = workingSet cd b" using s by (simp add: workingSet_def)
  have b1: "b1 = b\<lparr>calls := calls b @ map GetItem (sourceIds cd)\<rparr>"
    using s sourceItemsOf_board [of "sourceIds cd" b] by simp
  show ?thesis
    unfolding updateCalculatorNote_def s
    by (auto simp add: W [symmetric] b1 newContent_def Let_def workingSet_def s
        split: prod.split sum.split)
qed

lemma workingSet_exOrphanBoard: "workingSet exData exOrphanBoard = []"
  by (simp add: workingSet_def exData_def exOrphanBoard_def exBoard_def getItem_def logCall_def)

lemma workingSet_examples:
  "workingSet exData exNetBoard = [exFour, exSix]"
  "workingSet exData exLostBoard = [exFour, exSix]"
  "workingSet exData exBoard = [exFour, exSix]"
  "workingSet (exData\<lparr>operation := ''average''\<rparr>) exBoard = [exFour, exSix]"
  by (simp_all add: workingSet_def exData_def exNetBoard_def exLostBoard_def exBoard_def getItem_def
      logCall_def exFour_def exSix_def isNumeric_examples)

lemma newContent_examples:
  "newContent exData exNetBoard = ''10''"
  "newContent exData exLostBoard = ''10''"
  "newContent exData exBoard = ''10''"
  "newContent (exData\<lparr>operation := ''average''\<rparr>) exBoard = ''24''"
  using content_examples
  by (simp_all add: newContent_def workingSet_examples)
     (simp_all add: exData_def exFour_def exSix_def)

text \<open>
  When no source is left and the board deletes the calculator note, the note leaves the
  index and the index is saved.
\<close>

lemma updateCalculatorNote_orphan_deleted:
  assumes "workingSet cd b = []" and "fault b (DeleteItem cid) = None" and "items b cid = Some it"
  shows "updateCalculatorNote cid cd st b =
     (st\<lparr>calculatorNotes := mapDelete cid (calculatorNotes st)\<rparr>,
      b\<lparr>items := (items b)(cid := None),
        calls := calls b @ map GetItem (sourceIds cd) @
                 [DeleteItem cid, SetMetadata (mapDelete cid (calculatorNotes st))],
        metadata := (if fault b (SetMetadata (mapDelete cid (calculatorNotes st))) = None
                     then Some (mapDelete cid (calculatorNotes st)) else metadata b)\<rparr>)"
  using assms
  by (simp add: updateCalculatorNote_eq deleteItem_def saveCalculatorNotesToMetadata_def
      setMetadata_def logCall_def split: option.split)

lemma updateCalculatorNote_orphan_delete_fails:
  assumes "workingSet cd b = []"
    and "fault b (DeleteItem cid) \<noteq> None \<or> items b cid = None"
  shows "updateCalculatorNote cid cd st b =
     (st, b\<lparr>calls := calls b @ map GetItem (sourceIds cd) @ [DeleteItem cid]\<rparr>)"
  using assms
  by (auto simp add: updateCalculatorNote_eq deleteItem_def logCall_def split: option.split)

lemma updateCalculatorNote_written:
  assumes "workingSet cd b \<noteq> []"
    and "fault b (UpdateItemContent cid (newContent cd b)) = None" and "items b cid = Some it"
  shows "updateCalculatorNote cid cd st b =
     (st, b\<lparr>items := (items b)(cid \<mapsto> it\<lparr>content := newContent cd b\<rparr>),
            calls := calls b @ map GetItem (sourceIds cd) @
                     [UpdateItemContent cid (newContent cd b)]\<rparr>)"
  using assms
  by (simp add: updateCalculatorNote_eq updateItemContent_def logCall_def)

lemma updateCalculatorNote_other_failure:
  assumes "workingSet cd b \<noteq> []"
    and "fst (updateItemContent cid (newContent cd b) b) = Inl e" and "\<not> saysNotFound e"
  shows "updateCalculatorNote cid cd st b =
     (st, b\<lparr>calls := calls b @ map GetItem (sourceIds cd) @
                      [UpdateItemContent cid (newContent cd b)]\<rparr>)"
  using assms
  by (auto simp add: updateCalculatorNote_eq updateItemContent_def logCall_def
      split: option.splits)

text \<open>
  C2. The procedure reaches the terminal state only when the deletion request goes
  through. Here the calculator note 3 is tracked, its sources 1 and 2 are gone, and
  its own item is gone from the board too, so the deletion request fails: the
  recomputation probes the two sources, asks for the deletion, and stops. The index
  still holds the entry of note 3 and nothing is written to the metadata store.
\<close>

theorem orphan_with_failed_deletion_stays_tracked:
  "workingSet exData exOrphanBoard = []
   \<and> items exOrphanBoard 3 = None
   \<and> updateCalculatorNote 3 exData exCalc exOrphanBoard =
       (exCalc, exOrphanBoard\<lparr>calls := [GetItem 1, GetItem 2, DeleteItem 3]\<rparr>)
   \<and> calculatorNotes exCalc = [(3, exData)]"
  using updateCalculatorNote_orphan_delete_fails [of exData exOrphanBoard 3 exCalc]
    workingSet_exOrphanBoard
  by (simp add: exOrphanBoard_def exBoard_def exCalc_def exData_def)

text \<open>
  C5, as the code has it. When the working set is not empty and writing the new
  content fails with the error \<open>e\<close>: if the message of \<open>e\<close> contains \<open>not found\<close>, the
  note leaves the index and the index is saved (the save is the last request, and the
  store holds the new index unless the save fails); otherwise the index and the store
  stay as they are and the failed write is the last request. In both cases the
  procedure returns normally: the error goes no further.
\<close>

theorem updateCalculatorNote_write_back_fails:
  assumes "workingSet cd b \<noteq> []"
    and "fst (updateItemContent cid (newContent cd b) b) = Inl e"
  shows "updateCalculatorNote cid cd st b =
     (if saysNotFound e
      then (st\<lparr>calculatorNotes := mapDelete cid (calculatorNotes st)\<rparr>,
            b\<lparr>calls := calls b @ map GetItem (sourceIds cd) @
                       [UpdateItemContent cid (newContent cd b),
                        SetMetadata (mapDelete cid (calculatorNotes st))],
              metadata := (if fault b (SetMetadata (mapDelete cid (calculatorNotes st))) = None
                           then Some (mapDelete cid (calculatorNotes st)) else metadata b)\<rparr>)
      else (st, b\<lparr>calls := calls b @ map GetItem (sourceIds cd) @
                           [UpdateItemContent cid (newContent cd b)]\<rparr>))"
  using assms
  by (auto simp add: updateCalculatorNote_eq updateItemContent_def saveCalculatorNotesToMetadata_def
      setMetadata_def logCall_def split: option.splits)

text \<open>
  On the example: the calculator note 3 is gone from the board, the write fails with
  \<open>Item not found\<close>, and the note leaves the index and the store.
\<close>

theorem updateCalculatorNote_write_back_fails_witness:
  "updateCalculatorNote 3 exData exCalc exLostBoard =
     (exCalc\<lparr>calculatorNotes := []\<rparr>,
      exLostBoard\<lparr>calls := [GetItem 1, GetItem 2, UpdateItemContent 3 ''10'', SetMetadata []],
                  metadata := Some []\<rparr>)"
proof -
  have f: "fst (updateItemContent 3 (newContent exData exLostBoard) exLostBoard) =
             Inl \<lparr>message = Some ''Item not found''\<rparr>"
    by (simp add: updateItemContent_def exLostBoard_def exBoard_def)
  have w: "workingSet exData exLostBoard \<noteq> []" by (simp add: workingSet_examples)
  show ?thesis
    using updateCalculatorNote_write_back_fails [OF w f, of exCalc]
    by (simp add: saysNotFound_examples newContent_examples)
       (simp add: exCalc_def exLostBoard_def exBoard_def exData_def mapDelete_def)
qed

text \<open>
  The claim as stated fails: the write fails with \<open>Network error\<close>, and the note stays
  in the index; the failed write is the last request and the store is as before.
\<close>

theorem write_back_failure_keeps_entry:
  "fst (updateItemContent 3 (newContent exData exNetBoard) exNetBoard) = Inl networkError
   \<and> calculatorNotes (fst (updateCalculatorNote 3 exData exCalc exNetBoard)) = [(3, exData)]
   \<and> calls (snd (updateCalculatorNote 3 exData exCalc exNetBoard)) =
       [GetItem 1, GetItem 2, UpdateItemContent 3 ''10'']
   \<and> metadata (snd (updateCalculatorNote 3 exData exCalc exNetBoard)) = Some [(3, exData)]"
proof -
  have f: "fst (updateItemContent 3 (newContent exData exNetBoard) exNetBoard) = Inl networkError"
    by (simp add: updateItemContent_def exNetBoard_def)
  have w: "workingSet exData exNetBoard \<noteq> []" by (simp add: workingSet_examples)
  have "updateCalculatorNote 3 exData exCalc exNetBoard =
          (exCalc, exNetBoard\<lparr>calls := calls exNetBoard @ map GetItem (sourceIds exData) @
                                  [UpdateItemContent 3 (newContent exData exNetBoard)]\<rparr>)"
    using w f saysNotFound_examples(1) by (rule updateCalculatorNote_other_failure)
  then show ?thesis using f
    by (simp add: newContent_examples)
       (simp add: exNetBoard_def exBoard_def exCalc_def exData_def)
qed

lemma updateCalculatorNote_calls:
  assumes "workingSet cd b \<noteq> []"
  shows "\<exists>rest. calls (snd (updateCalculatorNote cid cd st b)) =
            calls b @ map GetItem (sourceIds cd) @ UpdateItemContent cid (newContent cd b) # rest"
  using assms
  by (auto simp add: updateCalculatorNote_eq updateItemContent_def logCall_def save_calls
      split: option.split)

section \<open>The operation tag\<close>

text \<open>
  C10. For every operation tag other than \<open>sum\<close>: a creation with at least two selected
  items asks the board for a note whose content is the formatted left fold of the
  multiplication from 1 over the selected values, and reports a product when nothing
  fails; a recomputation of a note with that tag and a working set that is not empty
  writes the formatted left fold of the multiplication from 1 over the working set's
  values. No tag is rejected.
\<close>

theorem any_other_operation_is_product:
  assumes "op \<noteq> ''sum''"
  shows "(2 \<le> length (selectedItems st) \<longrightarrow>
           (\<exists>rest. calls (snd (createCalculation op st b)) =
              calls b @ CreateStickyNote
                          (formatResult (foldl jsmul (Fin 1) (selectedValues st))) # rest))
       \<and> (2 \<le> length (selectedItems st) \<and> (\<forall>c. fault b c = None) \<longrightarrow>
           status (fst (createCalculation op st b)) =
             Some (''Product sticky note created successfully!'', ''success''))
       \<and> (operation cd = op \<and> workingSet cd b \<noteq> [] \<longrightarrow>
           (\<exists>rest. calls (snd (updateCalculatorNote cid cd st b)) =
              calls b @ map GetItem (sourceIds cd) @
              UpdateItemContent cid
                (formatResult (foldl jsmul (Fin 1)
                   (map (\<lambda>it. getNumericValue (content it)) (workingSet cd b)))) # rest))"
proof (intro conjI impI)
  assume "2 \<le> length (selectedItems st)"
  then show "\<exists>rest. calls (snd (createCalculation op st b)) =
              calls b @ CreateStickyNote
                          (formatResult (foldl jsmul (Fin 1) (selectedValues st))) # rest"
    using createCalculation_calls [of st op b] assms
    by (simp add: noteContent_def computeResult_def)
next
  assume "2 \<le> length (selectedItems st) \<and> (\<forall>c. fault b c = None)"
  then show "status (fst (createCalculation op st b)) =
             Some (''Product sticky note created successfully!'', ''success'')"
    using assms by (simp add: createCalculation_succeeds)
next
  assume a: "operation cd = op \<and> workingSet cd b \<noteq> []"
  then have nc: "newContent cd b = formatResult (foldl jsmul (Fin 1)
                   (map (\<lambda>it. getNumericValue (content it)) (workingSet cd b)))"
    using assms by (simp add: newContent_def computeResult_def)
  show "\<exists>rest. calls (snd (updateCalculatorNote cid cd st b)) =
              calls b @ map GetItem (sourceIds cd) @
              UpdateItemContent cid
                (formatResult (foldl jsmul (Fin 1)
                   (map (\<lambda>it. getNumericValue (content it)) (workingSet cd b)))) # rest"
    using a updateCalculatorNote_calls [of cd b cid st] by (simp add: nc)
qed

text \<open>On the example, the tag \<open>average\<close> yields the product 24 of the sources 4 and 6.\<close>

theorem any_other_operation_is_product_witness:
  "(\<exists>rest. calls (snd (createCalculation ''average'' exCalc exBoard)) =
             CreateStickyNote ''24'' # rest)
   \<and> status (fst (createCalculation ''average'' exCalc exBoard)) =
       Some (''Product sticky note created successfully!'', ''success'')
   \<and> (\<exists>rest. calls (snd (updateCalculatorNote 3 (exData\<lparr>operation := ''average''\<rparr>) exCalc exBoard)) =
             [GetItem 1, GetItem 2, UpdateItemContent 3 ''24''] @ rest)"
proof -
  have ne: "''average'' \<noteq> ''sum''" by simp
  have two: "2 \<le> length (selectedItems exCalc)" by (simp add: exCalc_def)
  have nofault: "\<forall>c. fault exBoard c = None" by (simp add: exBoard_def)
  have c1: "formatResult (foldl jsmul (Fin 1) (selectedValues exCalc)) = ''24''"
    using noteContent_examples(3) by (simp add: noteContent_def computeResult_def)
  have c2: "formatResult (foldl jsmul (Fin 1)
              (map (\<lambda>it. getNumericValue (content it))
                 (workingSet (exData\<lparr>operation := ''average''\<rparr>) exBoard))) = ''24''"
    using newContent_examples(4) by (simp add: newContent_def computeResult_def)
  have w: "workingSet (exData\<lparr>operation := ''average''\<rparr>) exBoard \<noteq> []"
    by (simp add: workingSet_examples)
  have o: "operation (exData\<lparr>operation := ''average''\<rparr>) = ''average''" by simp
  have s: "sourceIds (exData\<lparr>operation := ''average''\<rparr>) = [1, 2]" by (simp add: exData_def)
  have cs: "calls exBoard = []" by (simp add: exBoard_def)
  show ?thesis
    using any_other_operation_is_product
            [OF ne, where st = exCalc and b = exBoard
               and cd = "exData\<lparr>operation := ''average''\<rparr>" and cid = 3]
          two nofault w o
    unfolding c1 c2 s cs
    by simp
qed

section \<open>Restoring the index\<close>

lemma mapSet_fresh: "k \<notin> fst ` set m \<Longrightarrow> mapSet k v m = m @ [(k, v)]"
  by (induction m) auto

lemma newMap_from:
  "distinct (map fst (acc @ d)) \<Longrightarrow> foldl (\<lambda>m (k, v). mapSet k v m) acc d = acc @ d"
proof (induction d arbitrary: acc)
  case Nil
  show ?case by simp
next
  case (Cons p d)
  obtain k v where p: "p = (k, v)" by (cases p)
  have fresh: "k \<notin> fst ` set acc" using Cons.prems by (auto simp add: p)
  have "distinct (map fst ((acc @ [(k, v)]) @ d))" using Cons.prems by (simp add: p)
  then have "foldl (\<lambda>m (k, v). mapSet k v m) (acc @ [(k, v)]) d = (acc @ [(k, v)]) @ d"
    by (rule Cons.IH)
  then show ?case by (simp add: p mapSet_fresh [OF fresh])
qed

text \<open>An object holds a key once, and the map built from its entries is these entries.\<close>

lemma newMap_distinct: "distinct (map fst d) \<Longrightarrow> newMap d = d"
  using newMap_from [of "[]" d] by (simp add: newMap_def)

lemma filter_valid_norm:
  "filter (\<lambda>(i, cd). i \<in> fst ` set d \<and> answers b i) d = filter (\<lambda>(i, cd). answers b i) d"
  by (rule filter_cong) (auto simp add: rev_image_eqI)

lemma filter_length_eq: "(length (filter P xs) = length xs) = list_all P xs"
proof (induction xs)
  case Nil
  show ?case by simp
next
  case (Cons a xs)
  have "length (filter P xs) \<le> length xs" by (rule length_filter_le)
  then have "length (filter P xs) \<noteq> Suc (length xs)" by arith
  then show ?case using Cons.IH by auto
qed

lemma restoreCalculatorNotes_eq:
  assumes "fault b GetMetadata = None" and "metadata b = Some d" and "distinct (map fst d)"
  shows "restoreCalculatorNotes st b =
     (st\<lparr>calculatorNotes := filter (\<lambda>(i, cd). answers b i) d\<rparr>,
      if list_all (answers b) (map fst d)
      then b\<lparr>calls := calls b @ GetMetadata # map GetItem (map fst d)\<rparr>
      else b\<lparr>calls := calls b @ GetMetadata # map GetItem (map fst d) @
                        [SetMetadata (filter (\<lambda>(i, cd). answers b i) d)],
             metadata := (if fault b (SetMetadata (filter (\<lambda>(i, cd). answers b i) d)) = None
                          then Some (filter (\<lambda>(i, cd). answers b i) d) else Some d)\<rparr>)"
proof -
  let ?b1 = "b\<lparr>calls := calls b @ [GetMetadata]\<rparr>"
  let ?pruned = "filter (\<lambda>(i, cd). answers b i) d"
  have g: "getMetadata b = (Inr (Some d), ?b1)"
    using assms by (simp add: getMetadata_def logCall_def)
  have v: "validIdsOf (map fst d) ?b1 =
            (filter (answers b) (map fst d),
             b\<lparr>calls := calls b @ GetMetadata # map GetItem (map fst d)\<rparr>)"
    by (simp add: validIdsOf_eq answers_calls_irrelevant [abs_def])
  have dp: "distinct (map fst ?pruned)"
    using assms(3) by (simp add: distinct_map_filter)
  have len: "(length ?pruned \<noteq> length d) = (\<not> list_all (answers b) (map fst d))"
    using filter_length_eq [of "\<lambda>(i, cd). answers b i" d]
    by (simp add: list_all_iff case_prod_unfold)
  show ?thesis
    unfolding restoreCalculatorNotes_def g
    using len
    by (simp add: newMap_distinct [OF assms(3)] v filter_valid_norm newMap_distinct [OF dp]
        Let_def saveCalculatorNotesToMetadata_def setMetadata_def logCall_def assms(2)
        split: option.split)
qed

text \<open>
  Let the metadata store hold the record \<open>d\<close> and let reading it succeed. Then
  \<open>restoreCalculatorNotes\<close> reads the record, probes the item of every entry once, in
  order, and makes the index the entries of \<open>d\<close> whose probe answered, in their order.
  When every probe answered, no further request is made: nothing is written. When some
  probe did not answer, the pruned index is written back, and this is the last request;
  the store then holds the pruned index unless the write fails. On a board that raises
  no fault for a probe, the entries kept are exactly those whose item the board holds.
  And when every probe answered, saving right after the restore leaves the store with
  \<open>d\<close>, the record it held.
\<close>

lemma restoreCalculatorNotes_reconciles:
  assumes "fault b GetMetadata = None" and "metadata b = Some d" and "distinct (map fst d)"
  shows "restoreCalculatorNotes st b =
     (st\<lparr>calculatorNotes := filter (\<lambda>(i, cd). answers b i) d\<rparr>,
      if list_all (answers b) (map fst d)
      then b\<lparr>calls := calls b @ GetMetadata # map GetItem (map fst d)\<rparr>
      else b\<lparr>calls := calls b @ GetMetadata # map GetItem (map fst d) @
                        [SetMetadata (filter (\<lambda>(i, cd). answers b i) d)],
             metadata := (if fault b (SetMetadata (filter (\<lambda>(i, cd). answers b i) d)) = None
                          then Some (filter (\<lambda>(i, cd). answers b i) d) else Some d)\<rparr>)
   \<and> ((\<forall>i. fault b (GetItem i) = None) \<longrightarrow>
        filter (\<lambda>(i, cd). answers b i) d = filter (\<lambda>(i, cd). items b i \<noteq> None) d)
   \<and> (list_all (answers b) (map fst d) \<longrightarrow>
        metadata (saveCalculatorNotesToMetadata (fst (restoreCalculatorNotes st b))
                    (snd (restoreCalculatorNotes st b))) = Some d)"
proof (intro conjI impI)
  show "restoreCalculatorNotes st b =
     (st\<lparr>calculatorNotes := filter (\<lambda>(i, cd). answers b i) d\<rparr>,
      if list_all (answers b) (map fst d)
      then b\<lparr>calls := calls b @ GetMetadata # map GetItem (map fst d)\<rparr>
      else b\<lparr>calls := calls b @ GetMetadata # map GetItem (map fst d) @
                        [SetMetadata (filter (\<lambda>(i, cd). answers b i) d)],
             metadata := (if fault b (SetMetadata (filter (\<lambda>(i, cd). answers b i) d)) = None
                          then Some (filter (\<lambda>(i, cd). answers b i) d) else Some d)\<rparr>)"
    using assms by (rule restoreCalculatorNotes_eq)
next
  assume "\<forall>i. fault b (GetItem i) = None"
  then show "filter (\<lambda>(i, cd). answers b i) d = filter (\<lambda>(i, cd). items b i \<noteq> None) d"
    by (simp add: answers_def)
next
  assume all: "list_all (answers b) (map fst d)"
  then have keep: "filter (\<lambda>(i, cd). answers b i) d = d"
    by (simp add: list_all_iff filter_id_conv case_prod_unfold)
  show "metadata (saveCalculatorNotesToMetadata (fst (restoreCalculatorNotes st b))
                    (snd (restoreCalculatorNotes st b))) = Some d"
    using all assms(2)
    by (simp add: restoreCalculatorNotes_eq [OF assms] save_metadata keep)
qed

text \<open>
  On the example: with every item on the board the index is restored and nothing is
  written; with the calculator note gone its entry is dropped and the empty index is
  written back.
\<close>

lemma restoreCalculatorNotes_reconciles_examples:
  "restoreCalculatorNotes (exCalc\<lparr>calculatorNotes := []\<rparr>) exBoard =
     (exCalc, exBoard\<lparr>calls := [GetMetadata, GetItem 3]\<rparr>)
   \<and> restoreCalculatorNotes exCalc exOrphanBoard =
     (exCalc\<lparr>calculatorNotes := []\<rparr>,
      exOrphanBoard\<lparr>calls := [GetMetadata, GetItem 3, SetMetadata []], metadata := Some []\<rparr>)"
proof -
  have f: "fault exBoard GetMetadata = None" "fault exOrphanBoard GetMetadata = None"
    by (simp_all add: exBoard_def exOrphanBoard_def)
  have m: "metadata exBoard = Some [(3, exData)]" "metadata exOrphanBoard = Some [(3, exData)]"
    by (simp_all add: exBoard_def exOrphanBoard_def)
  have d: "distinct (map fst [(3 :: item_id, exData)])" by simp
  have a: "answers exBoard 3" "\<not> answers exOrphanBoard 3"
    by (simp_all add: answers_def exBoard_def exOrphanBoard_def)
  show ?thesis
    using restoreCalculatorNotes_reconciles [OF f(1) m(1) d, of "exCalc\<lparr>calculatorNotes := []\<rparr>"]
          restoreCalculatorNotes_reconciles [OF f(2) m(2) d, of exCalc]
    by (simp add: a)
       (simp add: exCalc_def exBoard_def exOrphanBoard_def)
qed

text \<open>
  C4. A probe that fails is taken for a missing item, whatever the failure. The example
  board holds the calculator note 3 and the record of its entry, and every probe of an
  item fails with a network error, which does not say that the item is missing. The
  catch of lines 262 to 265 asks nothing of the error: the entry of the note, which is
  still on the board, leaves the index, and the empty index is written over the record.
  On the same board without the fault the entry stays and nothing is written.
\<close>

theorem restore_drops_live_note:
  "items exProbeFailBoard 3 = Some exTen
   \<and> metadata exProbeFailBoard = Some [(3, exData)]
   \<and> fault exProbeFailBoard (GetItem 3) = Some networkError
   \<and> \<not> saysNotFound networkError
   \<and> restoreCalculatorNotes (exCalc\<lparr>calculatorNotes := []\<rparr>) exProbeFailBoard =
       (exCalc\<lparr>calculatorNotes := []\<rparr>,
        exProbeFailBoard\<lparr>calls := [GetMetadata, GetItem 3, SetMetadata []], metadata := Some []\<rparr>)
   \<and> restoreCalculatorNotes (exCalc\<lparr>calculatorNotes := []\<rparr>) exBoard =
       (exCalc, exBoard\<lparr>calls := [GetMetadata, GetItem 3]\<rparr>)"
proof -
  have f: "fault exBoard GetMetadata = None" "fault exProbeFailBoard GetMetadata = None"
    by (simp_all add: exBoard_def exProbeFailBoard_def)
  have m: "metadata exBoard = Some [(3, exData)]" "metadata exProbeFailBoard = Some [(3, exData)]"
    by (simp_all add: exBoard_def exProbeFailBoard_def)
  have d: "distinct (map fst [(3 :: item_id, exData)])" by simp
  have a: "answers exBoard 3" "\<not> answers exProbeFailBoard 3"
    by (simp_all add: answers_def exBoard_def exProbeFailBoard_def)
  have i: "items exProbeFailBoard 3 = Some exTen" by (simp add: exProbeFailBoard_def exBoard_def)
  have g: "fault exProbeFailBoard (GetItem 3) = Some networkError" by (simp add: exProbeFailBoard_def)
  have s: "fault exProbeFailBoard (SetMetadata []) = None" by (simp add: exProbeFailBoard_def)
  have n: "\<not> saysNotFound networkError" using saysNotFound_examples by simp
  have r1: "restoreCalculatorNotes (exCalc\<lparr>calculatorNotes := []\<rparr>) exProbeFailBoard =
       (exCalc\<lparr>calculatorNotes := []\<rparr>,
        exProbeFailBoard\<lparr>calls := [GetMetadata, GetItem 3, SetMetadata []], metadata := Some []\<rparr>)"
    using restoreCalculatorNotes_eq [OF f(2) m(2) d, of "exCalc\<lparr>calculatorNotes := []\<rparr>"]
    by (simp add: a s) (simp add: exProbeFailBoard_def exBoard_def)
  have r2: "restoreCalculatorNotes (exCalc\<lparr>calculatorNotes := []\<rparr>) exBoard =
       (exCalc, exBoard\<lparr>calls := [GetMetadata, GetItem 3]\<rparr>)"
    using restoreCalculatorNotes_eq [OF f(1) m(1) d, of "exCalc\<lparr>calculatorNotes := []\<rparr>"]
    by (simp add: a) (simp add: exCalc_def exBoard_def)
  show ?thesis by (intro conjI i m(2) g n r1 r2)
qed


section \<open>The contents computed on the examples\<close>

text \<open>
  C8. The sources read 4 and 6: a sum creates a note that reads 10, a product one that
  reads 24, and recomputing the sum note writes 10. The sources read 1.1 and 2.2: the
  sum note reads 3.3, while the sum itself prints as 3.3000000000000003.
\<close>

theorem example_contents:
  "selectedValues exCalc = [Fin 4, Fin 6]
   \<and> items (snd (createCalculation ''sum'' exCalc exBoard)) 4 =
       Some \<lparr>itemId = 4, itemType = ''sticky_note'', content = ''10''\<rparr>
   \<and> items (snd (createCalculation ''product'' exCalc exBoard)) 4 =
       Some \<lparr>itemId = 4, itemType = ''sticky_note'', content = ''24''\<rparr>
   \<and> calls (snd (updateCalculatorNote 3 exData exCalc exBoard)) =
       [GetItem 1, GetItem 2, UpdateItemContent 3 ''10'']
   \<and> items (snd (createCalculation ''sum'' exDecimalCalc exBoard)) 4 =
       Some \<lparr>itemId = 4, itemType = ''sticky_note'', content = ''3.3''\<rparr>
   \<and> toString (computeResult ''sum'' (selectedValues exDecimalCalc)) = ''3.3000000000000003''"
proof (intro conjI)
  have v: "getNumericValue ''4'' = Fin 4" "getNumericValue ''6'' = Fin 6" by code_simp+
  show "selectedValues exCalc = [Fin 4, Fin 6]"
    by (simp add: selectedValues_exCalc v)
  have two: "2 \<le> length (selectedItems exCalc)" "2 \<le> length (selectedItems exDecimalCalc)"
    by (simp_all add: exCalc_def exDecimalCalc_def)
  have nf: "fault exBoard c = None" for c by (simp add: exBoard_def)
  have n: "nextId exBoard = 4" by (simp add: exBoard_def)
  show "items (snd (createCalculation ''sum'' exCalc exBoard)) 4 =
       Some \<lparr>itemId = 4, itemType = ''sticky_note'', content = ''10''\<rparr>"
    by (simp add: createCalculation_succeeds [OF two(1) nf nf] n noteContent_examples)
  show "items (snd (createCalculation ''product'' exCalc exBoard)) 4 =
       Some \<lparr>itemId = 4, itemType = ''sticky_note'', content = ''24''\<rparr>"
    by (simp add: createCalculation_succeeds [OF two(1) nf nf] n noteContent_examples)
  show "items (snd (createCalculation ''sum'' exDecimalCalc exBoard)) 4 =
       Some \<lparr>itemId = 4, itemType = ''sticky_note'', content = ''3.3''\<rparr>"
    by (simp add: createCalculation_succeeds [OF two(2) nf nf] n noteContent_examples)
  have w: "workingSet exData exBoard \<noteq> []" by (simp add: workingSet_examples)
  have i: "items exBoard 3 = Some exTen" by (simp add: exBoard_def)
  show "calls (snd (updateCalculatorNote 3 exData exCalc exBoard)) =
       [GetItem 1, GetItem 2, UpdateItemContent 3 ''10'']"
    by (simp add: updateCalculatorNote_written [OF w nf i] newContent_examples)
       (simp add: exBoard_def exData_def)
  show "toString (computeResult ''sum'' (selectedValues exDecimalCalc)) = ''3.3000000000000003''"
    using decimal_sum_example by (simp add: selectedValues_def exDecimalCalc_def)
qed

section \<open>The numeric filter\<close>

text \<open>
  The longest floating-point literal at the start of a string, which is what
  \<open>parseFloat\<close> reads, is the whole string.
\<close>

definition parsesFully :: "string \<Rightarrow> bool" where
  "parsesFully t = (case scanSigned t of None \<Rightarrow> False | Some (v, rest) \<Rightarrow> rest = [] \<and> v \<noteq> NaN)"

text \<open>
  C7. The classifier accepts the hexadecimal literal \<open>0x10\<close>, which does not parse
  fully as a floating-point number: \<open>ToNumber\<close> reads it as 16, so the first test
  passes, while \<open>parseFloat\<close> reads the literal \<open>0\<close> and leaves \<open>x10\<close>, so the second
  test passes as well and the note counts as 0. The same holds for binary and octal
  literals.
\<close>

theorem isNumeric_accepts_partial_parse:
  "isNumeric ''0x10'' \<and> \<not> parsesFully (trim ''0x10'')
   \<and> stringToNumber ''0x10'' = Fin 16
   \<and> scanSigned ''0x10'' = Some (Fin 0, ''x10'')
   \<and> getNumericValue ''0x10'' = Fin 0
   \<and> isNumeric ''0b11'' \<and> \<not> parsesFully (trim ''0b11'') \<and> getNumericValue ''0b11'' = Fin 0
   \<and> isNumeric ''0o17'' \<and> \<not> parsesFully (trim ''0o17'') \<and> getNumericValue ''0o17'' = Fin 0"
  by code_simp

section \<open>Sums and products of integers\<close>

lemma ndigits_nonneg: "0 \<le> ndigits b n"
proof (induction b n rule: ndigits.induct)
  case (1 b n)
  show ?case
  proof (cases "n \<le> 0 \<or> b \<le> 1")
    case True
    then show ?thesis by (subst ndigits.simps) simp
  next
    case False
    then show ?thesis using 1 by (subst ndigits.simps) simp
  qed
qed

lemma ndigits_pos: "0 < n \<Longrightarrow> 1 \<le> ndigits 2 n"
  using ndigits_nonneg [of 2 "n div 2"] by (subst ndigits.simps) simp

lemma ndigits_less_pow: "n < 2 ^ k \<Longrightarrow> ndigits 2 n \<le> int k"
proof (induction k arbitrary: n)
  case 0
  then show ?case by (subst ndigits.simps) simp
next
  case (Suc k)
  show ?case
  proof (cases "n \<le> 0")
    case True
    then show ?thesis by (subst ndigits.simps) simp
  next
    case False
    have "n div 2 < 2 ^ k" using Suc.prems by simp
    then have "ndigits 2 (n div 2) \<le> int k" by (rule Suc.IH)
    then show ?thesis using False by (subst ndigits.simps) simp
  qed
qed

lemma roundEven_of_int: "roundEven (of_int m) = m"
  by (simp add: roundEven_def)

text \<open>An integer below \<open>2 ^ 53\<close> in magnitude has at most 53 bits and is a Number.\<close>

lemma round64_of_int_small:
  assumes "\<bar>n\<bar> < 2 ^ 53"
  shows "round64 (of_int n) = Fin (of_int n)"
proof (cases "n = 0")
  case True
  then show ?thesis by (simp add: round64_def)
next
  case False
  define d where "d = ndigits 2 \<bar>n\<bar>"
  have dlo: "1 \<le> d" using False by (simp add: d_def ndigits_pos)
  have dhi: "d \<le> 53" using ndigits_less_pow [of "\<bar>n\<bar>" 53] assms by (simp add: d_def)
  have one: "(1::rat) \<le> \<bar>of_int n\<bar>" using False
    by (metis of_int_abs of_int_1_le_iff zero_less_abs_iff int_one_le_iff_zero_less)
  have mag: "magnitude 2 \<bar>of_int n\<bar> = d"
    using one by (simp add: magnitude_def d_def flip: of_int_abs)
  define k where "k = nat (53 - d)"
  have u: "ipow 2 (d - 53) = 1 / of_int (2 ^ k)"
    using dlo dhi
    by (cases "d = 53") (simp_all add: ipow_def k_def)
  have quot: "(of_int n :: rat) / (1 / of_int (2 ^ k)) = of_int (n * 2 ^ k)"
    by simp
  have r: "roundEven (of_int n / ipow 2 (d - 53)) = n * 2 ^ k"
    unfolding u quot by (rule roundEven_of_int)
  have scaled: "(of_int (n * 2 ^ k) :: rat) * ipow 2 (d - 53) = of_int n"
    unfolding u by simp
  have res: "of_int (roundEven (of_int n / ipow 2 (d - 53))) * ipow 2 (d - 53) = (of_int n :: rat)"
    unfolding r by (rule scaled)
  have e: "max (d - 1) (- 1022) = d - 1" using dlo by simp
  show ?thesis
    using False dlo dhi
    by (simp add: round64_def mag e res Let_def)
qed

lemma round64_of_int_edge:
  "round64 (of_int (2 ^ 53)) = Fin (of_int (2 ^ 53))"
  "round64 (of_int (- (2 ^ 53))) = Fin (of_int (- (2 ^ 53)))"
  by code_simp+

lemma round64_of_int:
  assumes "\<bar>n\<bar> \<le> 2 ^ 53"
  shows "round64 (of_int n) = Fin (of_int n)"
proof (cases "\<bar>n\<bar> < 2 ^ 53")
  case True
  then show ?thesis by (rule round64_of_int_small)
next
  case False
  then have "n = 2 ^ 53 \<or> n = - (2 ^ 53)" using assms by linarith
  then show ?thesis using round64_of_int_edge by auto
qed

lemma jsadd_exact:
  "\<bar>a + b\<bar> \<le> 2 ^ 53 \<Longrightarrow> jsadd (intNum a) (intNum b) = intNum (a + b)"
  using round64_of_int [of "a + b"] by (simp add: intNum_def)

lemma jsmul_exact:
  "\<bar>a * b\<bar> \<le> 2 ^ 53 \<Longrightarrow> jsmul (intNum a) (intNum b) = intNum (a * b)"
  using round64_of_int [of "a * b"] by (simp add: intNum_def)

lemma foldl_jsadd_exact:
  "\<bar>a\<bar> + sum_list (map abs vs) \<le> 2 ^ 53 \<Longrightarrow>
   foldl jsadd (intNum a) (map intNum vs) = intNum (a + sum_list vs)"
proof (induction vs arbitrary: a)
  case Nil
  show ?case by simp
next
  case (Cons v vs)
  have nn: "0 \<le> sum_list (map abs vs)" by (rule sum_list_nonneg) auto
  have step: "jsadd (intNum a) (intNum v) = intNum (a + v)"
    using Cons.prems nn by (intro jsadd_exact) simp
  have "\<bar>a + v\<bar> + sum_list (map abs vs) \<le> 2 ^ 53" using Cons.prems by simp
  then have "foldl jsadd (intNum (a + v)) (map intNum vs) = intNum (a + v + sum_list vs)"
    by (rule Cons.IH)
  then show ?case by (simp add: step add.assoc)
qed

lemma prod_list_ge_one: "1 \<le> prod_list (map (\<lambda>v. max 1 \<bar>v\<bar>) (vs :: int list))"
proof (induction vs)
  case Nil
  show ?case by simp
next
  case (Cons v vs)
  have "1 * 1 \<le> max 1 \<bar>v\<bar> * prod_list (map (\<lambda>v. max 1 \<bar>v\<bar>) vs)"
    using Cons.IH by (intro mult_mono) simp_all
  then show ?case by simp
qed

lemma foldl_jsmul_exact:
  "\<bar>a\<bar> * prod_list (map (\<lambda>v. max 1 \<bar>v\<bar>) vs) \<le> 2 ^ 53 \<Longrightarrow>
   foldl jsmul (intNum a) (map intNum vs) = intNum (a * prod_list vs)"
proof (induction vs arbitrary: a)
  case Nil
  show ?case by simp
next
  case (Cons v vs)
  let ?P = "prod_list (map (\<lambda>v. max 1 \<bar>v\<bar>) vs)"
  have P1: "1 \<le> ?P" by (rule prod_list_ge_one)
  have bound: "\<bar>a\<bar> * (max 1 \<bar>v\<bar> * ?P) \<le> 2 ^ 53" using Cons.prems by simp
  have av: "\<bar>a * v\<bar> \<le> \<bar>a\<bar> * max 1 \<bar>v\<bar>"
    by (simp add: abs_mult mult_left_mono)
  have av1: "\<bar>a * v\<bar> * 1 \<le> \<bar>a * v\<bar> * ?P" using P1 by (intro mult_left_mono) simp_all
  have av2: "\<bar>a * v\<bar> * ?P \<le> (\<bar>a\<bar> * max 1 \<bar>v\<bar>) * ?P"
    using av P1 by (intro mult_right_mono) simp_all
  have le: "\<bar>a * v\<bar> * ?P \<le> 2 ^ 53" using av2 bound by (simp add: mult.assoc)
  have step: "jsmul (intNum a) (intNum v) = intNum (a * v)"
    using av1 le by (intro jsmul_exact) simp
  have "foldl jsmul (intNum (a * v)) (map intNum vs) = intNum (a * v * prod_list vs)"
    using le by (rule Cons.IH)
  then show ?case by (simp add: step mult.assoc)
qed

lemma sum_list_permuted:
  "mset ys = mset xs \<Longrightarrow> sum_list (map f ys) = (sum_list (map f xs) :: int)"
  by (metis mset_map sum_mset_sum_list)

lemma prod_list_permuted:
  "mset ys = mset xs \<Longrightarrow> prod_list (map f ys) = (prod_list (map f xs) :: int)"
  by (metis mset_map prod_mset_prod_list)

text \<open>
  C1, as the code has it. The result is the left fold over the values in their order:
  of the Number addition from 0 for the tag \<open>sum\<close>, of the Number multiplication from 1
  for the tag \<open>product\<close>. Each step rounds, so the order of the values matters in
  general. For integer values whose absolute values sum to at most \<open>2 ^ 53\<close> the sum is
  the exact sum; for integer values whose absolute values, zeros counted as one,
  multiply to at most \<open>2 ^ 53\<close> the product is the exact product; and then every
  reordering of the values gives the same result.
\<close>

theorem computeResult_exact_on_integers:
  assumes "mset ys = mset xs"
  shows "computeResult ''sum'' vals = foldl jsadd (Fin 0) vals
       \<and> computeResult ''product'' vals = foldl jsmul (Fin 1) vals
       \<and> (sum_list (map abs xs) \<le> 2 ^ 53 \<longrightarrow>
            computeResult ''sum'' (map intNum xs) = intNum (sum_list xs)
            \<and> computeResult ''sum'' (map intNum ys) = computeResult ''sum'' (map intNum xs))
       \<and> (prod_list (map (\<lambda>v. max 1 \<bar>v\<bar>) xs) \<le> 2 ^ 53 \<longrightarrow>
            computeResult ''product'' (map intNum xs) = intNum (prod_list xs)
            \<and> computeResult ''product'' (map intNum ys) = computeResult ''product'' (map intNum xs))"
proof (intro conjI impI)
  show "computeResult ''sum'' vals = foldl jsadd (Fin 0) vals"
    by (simp add: computeResult_def)
  show "computeResult ''product'' vals = foldl jsmul (Fin 1) vals"
    by (simp add: computeResult_def)
next
  assume b: "sum_list (map abs xs) \<le> 2 ^ 53"
  have x: "foldl jsadd (intNum 0) (map intNum xs) = intNum (0 + sum_list xs)"
    using b by (intro foldl_jsadd_exact) simp
  have "sum_list (map abs ys) \<le> 2 ^ 53"
    using b sum_list_permuted [OF assms, of abs] by simp
  then have y: "foldl jsadd (intNum 0) (map intNum ys) = intNum (0 + sum_list ys)"
    by (intro foldl_jsadd_exact) simp
  have s: "sum_list ys = sum_list xs"
    using sum_list_permuted [OF assms, of "\<lambda>v. v"] by simp
  show "computeResult ''sum'' (map intNum xs) = intNum (sum_list xs)"
    using x by (simp add: computeResult_def intNum_def)
  show "computeResult ''sum'' (map intNum ys) = computeResult ''sum'' (map intNum xs)"
    using x y s by (simp add: computeResult_def intNum_def)
next
  assume b: "prod_list (map (\<lambda>v. max 1 \<bar>v\<bar>) xs) \<le> 2 ^ 53"
  have x: "foldl jsmul (intNum 1) (map intNum xs) = intNum (1 * prod_list xs)"
    using b by (intro foldl_jsmul_exact) simp
  have "prod_list (map (\<lambda>v. max 1 \<bar>v\<bar>) ys) \<le> 2 ^ 53"
    using b prod_list_permuted [OF assms, of "\<lambda>v. max 1 \<bar>v\<bar>"] by simp
  then have y: "foldl jsmul (intNum 1) (map intNum ys) = intNum (1 * prod_list ys)"
    by (intro foldl_jsmul_exact) simp
  have s: "prod_list ys = prod_list xs"
    using prod_list_permuted [OF assms, of "\<lambda>v. v"] by simp
  show "computeResult ''product'' (map intNum xs) = intNum (prod_list xs)"
    using x by (simp add: computeResult_def intNum_def)
  show "computeResult ''product'' (map intNum ys) = computeResult ''product'' (map intNum xs)"
    using x y s by (simp add: computeResult_def intNum_def)
qed

text \<open>On the example: 4 and 6 in either order sum to 10 and multiply to 24.\<close>

theorem computeResult_exact_on_integers_witness:
  "computeResult ''sum'' (map intNum [4, 6]) = intNum 10
   \<and> computeResult ''sum'' (map intNum [6, 4]) = computeResult ''sum'' (map intNum [4, 6])
   \<and> computeResult ''product'' (map intNum [4, 6]) = intNum 24
   \<and> computeResult ''product'' (map intNum [6, 4]) = computeResult ''product'' (map intNum [4, 6])"
proof -
  have m: "mset [6, 4 :: int] = mset [4, 6]" by simp
  show ?thesis
    using computeResult_exact_on_integers [OF m, of "[]"]
    by simp
qed

text \<open>
  The claim as stated fails: the same three values in two orders give different sums,
  and different products, down to the contents the notes would show.
\<close>

theorem computeResult_depends_on_order:
  "mset [''1'', ''1'', ''9007199254740992''] = mset [''9007199254740992'', ''1'', ''1'']
   \<and> formatResult (computeResult ''sum''
        (map getNumericValue [''9007199254740992'', ''1'', ''1''])) = ''9007199254740992''
   \<and> formatResult (computeResult ''sum''
        (map getNumericValue [''1'', ''1'', ''9007199254740992''])) = ''9007199254740994''
   \<and> mset [''3'', ''83747033'', ''107897899''] = mset [''107897899'', ''83747033'', ''3'']
   \<and> formatResult (computeResult ''product''
        (map getNumericValue [''107897899'', ''83747033'', ''3''])) = ''27108386724551004''
   \<and> formatResult (computeResult ''product''
        (map getNumericValue [''3'', ''83747033'', ''107897899''])) = ''27108386724551000''"
proof (intro conjI)
  show "mset [''1'', ''1'', ''9007199254740992''] = mset [''9007199254740992'', ''1'', ''1'']"
    by simp
  show "mset [''3'', ''83747033'', ''107897899''] = mset [''107897899'', ''83747033'', ''3'']"
    by simp
  show "formatResult (computeResult ''sum''
        (map getNumericValue [''9007199254740992'', ''1'', ''1''])) = ''9007199254740992''"
    by code_simp
  show "formatResult (computeResult ''sum''
        (map getNumericValue [''1'', ''1'', ''9007199254740992''])) = ''9007199254740994''"
    by code_simp
  show "formatResult (computeResult ''product''
        (map getNumericValue [''107897899'', ''83747033'', ''3''])) = ''27108386724551004''"
    by code_simp
  show "formatResult (computeResult ''product''
        (map getNumericValue [''3'', ''83747033'', ''107897899''])) = ''27108386724551000''"
    by code_simp
qed

section \<open>Formatting a result\<close>

subsection \<open>Magnitudes\<close>

lemma ipow_powi: "ipow b e = of_int b powi e"
  by (simp add: ipow_def power_int_def inverse_eq_divide power_one_over)

lemma ndigits_step: "0 < n \<Longrightarrow> 1 < b \<Longrightarrow> ndigits b n = 1 + ndigits b (n div b)"
  by (subst ndigits.simps) simp

lemma ndigits_zero: "n \<le> 0 \<Longrightarrow> ndigits b n = 0"
  by (subst ndigits.simps) simp

lemma ndigits_bounds:
  "2 \<le> b \<Longrightarrow> 0 < n \<Longrightarrow>
   1 \<le> ndigits b n \<and> b ^ nat (ndigits b n - 1) \<le> n \<and> n < b ^ nat (ndigits b n)"
proof (induction b n rule: ndigits.induct)
  case (1 b n)
  have b: "1 < b" "0 < b" using 1 by simp_all
  have step: "ndigits b n = 1 + ndigits b (n div b)"
    using 1 by (simp add: ndigits_step)
  show ?case
  proof (cases "n div b \<le> 0")
    case True
    then have "n < b" using 1 b
      by (metis int_one_le_iff_zero_less order_less_imp_le pos_imp_zdiv_pos_iff
          linorder_not_le)
    then show ?thesis using True 1 by (simp add: step ndigits_zero)
  next
    case False
    then have pos: "0 < n div b" by simp
    have ih: "1 \<le> ndigits b (n div b) \<and> b ^ nat (ndigits b (n div b) - 1) \<le> n div b
              \<and> n div b < b ^ nat (ndigits b (n div b))"
      using 1 pos by simp
    define d where "d = ndigits b (n div b)"
    have d1: "1 \<le> d" using ih by (simp add: d_def)
    have lo: "b ^ nat (d - 1) \<le> n div b" using ih by (simp add: d_def)
    have hi: "n div b < b ^ nat d" using ih by (simp add: d_def)
    have nd: "nat d = Suc (nat (d - 1))" using d1 by simp
    have "b * b ^ nat (d - 1) \<le> b * (n div b)" using lo b by simp
    also have "\<dots> \<le> n"
    proof -
      have "b * (n div b) + n mod b = n" by (rule mult_div_mod_eq)
      moreover have "0 \<le> n mod b" using b by simp
      ultimately show ?thesis by linarith
    qed
    finally have lo': "b ^ nat d \<le> n" by (simp add: nd)
    have "n div b + 1 \<le> b ^ nat d" using hi by simp
    then have "b * (n div b + 1) \<le> b * b ^ nat d" using b by simp
    moreover have "n < b * (n div b + 1)"
    proof -
      have "b * (n div b) + n mod b = n" by (rule mult_div_mod_eq)
      moreover have "n mod b < b" using b by simp
      moreover have "b * (n div b + 1) = b * (n div b) + b" by (simp add: distrib_left)
      ultimately show ?thesis by linarith
    qed
    ultimately have hi': "n < b ^ Suc (nat d)" by simp
    have "nat (1 + d) = Suc (nat d)" using d1 by simp
    then show ?thesis using d1 lo' hi' by (simp add: step d_def [symmetric])
  qed
qed

lemma powi_less_cancel:
  fixes a :: rat
  assumes "1 < a" and "a powi m < a powi n"
  shows "m < n"
proof (rule ccontr)
  assume "\<not> m < n"
  then have "n \<le> m" by simp
  then have "a powi n \<le> a powi m" using assms(1) by (intro power_int_increasing) simp_all
  then show False using assms(2) by simp
qed

lemma magnitude_bounds:
  assumes "2 \<le> b" and "0 < q"
  shows "of_int b powi (magnitude b q - 1) \<le> q \<and> q < of_int b powi (magnitude b q)"
proof (cases "1 \<le> q")
  case True
  define n where "n = \<lfloor>q\<rfloor>"
  have n: "0 < n" using True by (simp add: n_def)
  define d where "d = ndigits b n"
  have nb: "1 \<le> d \<and> b ^ nat (d - 1) \<le> n \<and> n < b ^ nat d"
    using ndigits_bounds [OF assms(1) n] by (simp add: d_def)
  have m: "magnitude b q = d" using True by (simp add: magnitude_def d_def n_def)
  have "(of_int b :: rat) powi (d - 1) = of_int (b ^ nat (d - 1))"
    using nb by (simp add: power_int_def)
  also have "\<dots> \<le> of_int n" using nb by (simp only: of_int_le_iff)
  also have "\<dots> \<le> q" by (simp add: n_def)
  finally have lo: "of_int b powi (d - 1) \<le> q" .
  have "n + 1 \<le> b ^ nat d" using nb by simp
  then have "(of_int (n + 1) :: rat) \<le> of_int (b ^ nat d)" by (simp only: of_int_le_iff)
  moreover have "q < of_int (n + 1)" unfolding n_def by linarith
  moreover have "(of_int b :: rat) powi d = of_int (b ^ nat d)"
    using nb by (simp add: power_int_def)
  ultimately have hi: "q < of_int b powi d" by (simp only:)
  show ?thesis using lo hi by (simp add: m)
next
  case False
  then have q1: "q < 1" by simp
  define c where "c = \<lceil>1 / q\<rceil>"
  have inv: "1 < 1 / q" using assms(2) q1 by simp
  have c2: "2 \<le> c" using inv by (simp add: c_def)
  define d where "d = ndigits b (c - 1)"
  have nb: "1 \<le> d \<and> b ^ nat (d - 1) \<le> c - 1 \<and> c - 1 < b ^ nat d"
    using ndigits_bounds [OF assms(1), of "c - 1"] c2 by (simp add: d_def)
  have m: "magnitude b q = 1 - d" using False by (simp add: magnitude_def d_def c_def)
  have bpos: "(0::rat) < of_int b" using assms(1) by simp
  have c_lo: "of_int (c - 1) < 1 / q" unfolding c_def by linarith
  have c_hi: "1 / q \<le> of_int c" unfolding c_def by linarith
  have p1: "(of_int b :: rat) powi (d - 1) = of_int (b ^ nat (d - 1))"
    using nb by (simp add: power_int_def)
  have p2: "(of_int b :: rat) powi d = of_int (b ^ nat d)"
    using nb by (simp add: power_int_def)
  have "(of_int (b ^ nat (d - 1)) :: rat) \<le> of_int (c - 1)" using nb by (simp only: of_int_le_iff)
  then have "(of_int (b ^ nat (d - 1)) :: rat) < 1 / q" using c_lo by (rule order_le_less_trans)
  then have "(of_int b :: rat) powi (d - 1) < 1 / q" by (simp only: p1)
  then have "q < 1 / (of_int b powi (d - 1))"
    using assms(2) bpos by (simp add: field_simps)
  then have hi: "q < of_int b powi (1 - d)"
    using power_int_minus_divide [of "of_int b :: rat" "d - 1"] by simp
  have "c \<le> b ^ nat d" using nb by simp
  then have "(of_int c :: rat) \<le> of_int (b ^ nat d)" by (simp only: of_int_le_iff)
  with c_hi have "1 / q \<le> of_int (b ^ nat d)" by (rule order_trans)
  then have "1 / q \<le> of_int b powi d" by (simp only: p2)
  then have "1 / (of_int b powi d) \<le> q"
    using assms(2) bpos by (simp add: field_simps)
  then have lo: "of_int b powi (- d) \<le> q"
    using power_int_minus_divide [of "of_int b :: rat" d] by simp
  show ?thesis using lo hi by (simp add: m)
qed

lemma magnitude_unique:
  assumes "2 \<le> b" and "0 < q"
    and "of_int b powi (m - 1) \<le> q" and "q < of_int b powi m"
  shows "magnitude b q = m"
proof -
  define k where "k = magnitude b q"
  have kb: "of_int b powi (k - 1) \<le> q" "q < of_int b powi k"
    using magnitude_bounds [OF assms(1,2)] by (simp_all add: k_def)
  have b1: "(1::rat) < of_int b" using assms(1) by simp
  have "of_int b powi (k - 1) < (of_int b :: rat) powi m" using kb(1) assms(4) by simp
  then have "k - 1 < m" using b1 by (rule powi_less_cancel [rotated])
  moreover have "of_int b powi (m - 1) < (of_int b :: rat) powi k" using kb(2) assms(3) by simp
  then have "m - 1 < k" using b1 by (rule powi_less_cancel [rotated])
  ultimately show ?thesis by (simp add: k_def)
qed

subsection \<open>Rounding to a Number\<close>

lemma ulp_pos: "0 < ulp q"
  by (simp add: ulp_def)

lemma expo_neg: "expo (- q) = expo q"
  by (simp add: expo_def)

lemma ulp_neg: "ulp (- q) = ulp q"
  by (simp add: ulp_def expo_neg)

lemma round64_unfold:
  "q \<noteq> 0 \<Longrightarrow> round64 q =
     (if 1024 \<le> expo q then (if 0 < q then PInf else NInf)
      else if expo q = 1023 \<and> 2 ^ 53 \<le> \<bar>roundEven (q / ulp q)\<bar>
           then (if 0 < q then PInf else NInf)
           else Fin (of_int (roundEven (q / ulp q)) * ulp q))"
  unfolding round64_def expo_def ulp_def Let_def ipow_powi
  by (simp only: if_False of_int_numeral)

lemma roundEven_unique:
  assumes "\<bar>z - of_int m\<bar> < 1 / 2"
  shows "roundEven z = m"
proof -
  define f where "f = \<lfloor>z\<rfloor>"
  have f: "of_int f \<le> z" "z < of_int f + 1" unfolding f_def by linarith+
  have "m = f \<or> m = f + 1"
  proof -
    have "of_int m < z + 1 / 2" "z - 1 / 2 < of_int m" using assms by linarith+
    then have "(of_int m :: rat) < of_int (f + 2)" "(of_int (f - 1) :: rat) < of_int m"
      using f by simp_all
    then have "m < f + 2" "f - 1 < m" by (simp_all only: of_int_less_iff)
    then show ?thesis by linarith
  qed
  then show ?thesis
  proof
    assume "m = f"
    then have "z - of_int f < 1 / 2" using assms f by linarith
    then show ?thesis by (simp add: roundEven_def f_def [symmetric] \<open>m = f\<close>)
  next
    assume m: "m = f + 1"
    then have "1 / 2 < z - of_int f" using assms f by simp
    then show ?thesis by (simp add: roundEven_def f_def [symmetric] m)
  qed
qed

lemma roundEven_near: "\<bar>of_int (roundEven z) - z\<bar> \<le> 1 / 2"
proof -
  define f where "f = \<lfloor>z\<rfloor>"
  have f: "of_int f \<le> z" "z < of_int f + 1" unfolding f_def by linarith+
  show ?thesis
    using f by (simp add: roundEven_def f_def [symmetric] Let_def)
qed

lemma roundEven_neg: "roundEven (- z) = - roundEven z"
proof (cases "z = of_int \<lfloor>z\<rfloor>")
  case True
  then obtain k where z: "z = of_int k" by auto
  have "roundEven (of_int (- k)) = - k" by (rule roundEven_of_int)
  then show ?thesis by (simp add: z roundEven_of_int)
next
  case False
  define f where "f = \<lfloor>z\<rfloor>"
  have f: "of_int f < z" "z < of_int f + 1" using False unfolding f_def by linarith+
  have fl: "\<lfloor>- z\<rfloor> = - f - 1" using f by (intro floor_unique) simp_all
  have d: "- z - of_int (- f - 1) = 1 - (z - of_int f)" by simp
  show ?thesis
    unfolding roundEven_def fl f_def [symmetric] Let_def d
    by (auto simp add: algebra_simps)
qed

lemma expo_ge: "- 1022 \<le> expo q"
  by (simp add: expo_def)

lemma expo_upper:
  assumes "q \<noteq> 0"
  shows "\<bar>q\<bar> < 2 powi (expo q + 1)"
proof -
  define m where "m = magnitude 2 \<bar>q\<bar>"
  have mb: "2 powi (m - 1) \<le> \<bar>q\<bar>" "\<bar>q\<bar> < 2 powi m"
    using magnitude_bounds [of 2 "\<bar>q\<bar>"] assms by (simp_all add: m_def)
  have "m \<le> expo q + 1" by (simp add: expo_def m_def)
  then have "(2::rat) powi m \<le> 2 powi (expo q + 1)" by (intro power_int_increasing) simp_all
  then show ?thesis using mb(2) by simp
qed

lemma expo_lower:
  assumes "q \<noteq> 0" and "- 1022 < expo q"
  shows "2 powi expo q \<le> \<bar>q\<bar>"
proof -
  define m where "m = magnitude 2 \<bar>q\<bar>"
  have mb: "2 powi (m - 1) \<le> \<bar>q\<bar>"
    using magnitude_bounds [of 2 "\<bar>q\<bar>"] assms by (simp_all add: m_def)
  have "expo q = m - 1" using assms(2) by (simp add: expo_def m_def)
  then show ?thesis using mb by simp
qed

lemma expo_eqI:
  assumes "- 1022 \<le> e" and "2 powi e \<le> \<bar>q\<bar>" and "\<bar>q\<bar> < 2 powi (e + 1)"
  shows "expo q = e"
proof -
  have pos: "0 < \<bar>q\<bar>" using assms(2) zero_less_power_int [of "2::rat" e] by linarith
  have "magnitude 2 \<bar>q\<bar> = e + 1"
    using pos assms(2,3) by (intro magnitude_unique) simp_all
  then show ?thesis using assms(1) by (simp add: expo_def)
qed

lemma expo_subnormal:
  assumes "q \<noteq> 0" and "\<bar>q\<bar> < 2 powi (- 1022)"
  shows "expo q = - 1022"
proof -
  define m where "m = magnitude 2 \<bar>q\<bar>"
  have mb: "2 powi (m - 1) \<le> \<bar>q\<bar>"
    using magnitude_bounds [of 2 "\<bar>q\<bar>"] assms by (simp_all add: m_def)
  then have "(2::rat) powi (m - 1) < 2 powi (- 1022)" using assms(2) by simp
  then have "m - 1 < - 1022" by (intro powi_less_cancel [of 2]) simp_all
  then show ?thesis by (simp add: expo_def m_def)
qed

lemma ulp_times: "ulp q * 2 powi k = 2 powi (expo q - 52 + k)"
  by (simp add: ulp_def power_int_add)

lemma div_ulp: "2 powi k / ulp q = 2 powi (k - (expo q - 52))"
  by (simp add: ulp_def power_int_diff)

lemma scaled_upper:
  assumes "q \<noteq> 0"
  shows "\<bar>q / ulp q\<bar> < 2 ^ 53"
proof -
  have "\<bar>q\<bar> / ulp q < 2 powi (expo q + 1) / ulp q"
    using expo_upper [OF assms] ulp_pos [of q] by (simp add: divide_strict_right_mono)
  also have "\<dots> = 2 powi 53" by (simp add: div_ulp)
  finally show ?thesis using ulp_pos [of q] by (simp add: abs_divide)
qed

lemma scaled_lower:
  assumes "q \<noteq> 0" and "- 1022 < expo q"
  shows "2 ^ 52 \<le> \<bar>q / ulp q\<bar>"
proof -
  have "2 powi expo q / ulp q \<le> \<bar>q\<bar> / ulp q"
    using expo_lower [OF assms] ulp_pos [of q] by (simp add: divide_right_mono)
  moreover have "2 powi expo q / ulp q = 2 powi 52" by (simp add: div_ulp)
  ultimately show ?thesis using ulp_pos [of q] by (simp add: abs_divide)
qed

lemma round64_zero: "round64 0 = Fin 0"
  by (simp add: round64_def)

lemma round64_Fin:
  assumes "q \<noteq> 0" and "round64 q = Fin r"
  shows "expo q \<le> 1023"
    and "r = of_int (roundEven (q / ulp q)) * ulp q"
    and "\<not> (expo q = 1023 \<and> 2 ^ 53 \<le> \<bar>roundEven (q / ulp q)\<bar>)"
  using assms(2) unfolding round64_unfold [OF assms(1)]
  by (auto split: if_splits)

lemma round64_eqI:
  assumes "q \<noteq> 0" and "expo q \<le> 1023" and "\<bar>q / ulp q - of_int m\<bar> < 1 / 2"
    and "\<not> (expo q = 1023 \<and> 2 ^ 53 \<le> \<bar>m\<bar>)"
  shows "round64 q = Fin (of_int m * ulp q)"
proof -
  have r: "roundEven (q / ulp q) = m" using assms(3) by (rule roundEven_unique)
  show ?thesis
    unfolding round64_unfold [OF assms(1)] r using assms(2,4) by auto
qed

lemma round64_near:
  assumes "round64 q = Fin r"
  shows "\<bar>r - q\<bar> \<le> ulp q / 2"
proof (cases "q = 0")
  case True
  then show ?thesis using assms ulp_pos [of q] by (simp add: round64_zero)
next
  case False
  define n where "n = roundEven (q / ulp q)"
  have r: "r = of_int n * ulp q" using round64_Fin(2) [OF False assms] by (simp add: n_def)
  have "r - q = (of_int n - q / ulp q) * ulp q"
    using ulp_pos [of q] by (simp add: r field_simps)
  then have "\<bar>r - q\<bar> = \<bar>of_int n - q / ulp q\<bar> * ulp q"
    using ulp_pos [of q] by (simp add: abs_mult)
  also have "\<dots> \<le> (1 / 2) * ulp q"
    using roundEven_near [of "q / ulp q"] ulp_pos [of q]
    by (intro mult_right_mono) (simp_all add: n_def)
  finally show ?thesis by simp
qed

lemma round64_neg: "round64 (- q) = jsneg (round64 q)"
proof (cases "q = 0")
  case True
  then show ?thesis by (simp add: round64_zero jsneg_def)
next
  case False
  then have nz: "- q \<noteq> 0" by simp
  have r: "roundEven (- q / ulp q) = - roundEven (q / ulp q)"
    using roundEven_neg [of "q / ulp q"] by simp
  show ?thesis
    unfolding round64_unfold [OF False] round64_unfold [OF nz] expo_neg ulp_neg r
    using False by (auto simp add: jsneg_def)
qed

lemma isNumber_zero: "isNumber 0"
  by (simp add: isNumber_def round64_zero)

lemma isNumber_neg: "isNumber (- q) = isNumber q"
  by (cases "round64 q") (auto simp add: isNumber_def round64_neg jsneg_def)

lemma isNumber_scaled:
  assumes "isNumber q" and "q \<noteq> 0"
  shows "q / ulp q = of_int (roundEven (q / ulp q))" and "expo q \<le> 1023"
proof -
  have r: "round64 q = Fin q" using assms(1) by (simp add: isNumber_def)
  have "q = of_int (roundEven (q / ulp q)) * ulp q" using round64_Fin(2) [OF assms(2) r] .
  then have "q / ulp q = of_int (roundEven (q / ulp q)) * ulp q / ulp q" by simp
  then show "q / ulp q = of_int (roundEven (q / ulp q))" using ulp_pos [of q] by simp
  show "expo q \<le> 1023" using round64_Fin(1) [OF assms(2) r] .
qed

lemma isNumberI:
  assumes "q \<noteq> 0" and "expo q \<le> 1023" and "q / ulp q = of_int m"
  shows "isNumber q"
proof -
  have "\<bar>q / ulp q\<bar> < 2 ^ 53" using assms(1) by (rule scaled_upper)
  then have "\<bar>(of_int m :: rat)\<bar> < of_int (2 ^ 53)" by (simp add: assms(3))
  then have m: "\<bar>m\<bar> < 2 ^ 53" by (simp only: of_int_abs [symmetric] of_int_less_iff)
  have "round64 q = Fin (of_int m * ulp q)"
    using assms(1,2) m by (intro round64_eqI) (simp_all add: assms(3))
  moreover have "of_int m * ulp q = q" using ulp_pos [of q] assms(3) by (simp add: field_simps)
  ultimately show ?thesis by (simp add: isNumber_def)
qed

lemma abs_int_bound:
  fixes n :: int
  assumes "\<bar>of_int n - z\<bar> \<le> (1 / 2 :: rat)" and "\<bar>z\<bar> < of_int k"
  shows "\<bar>n\<bar> \<le> k"
proof -
  have "\<bar>(of_int n :: rat)\<bar> < of_int k + 1 / 2" using assms by linarith
  then have "(of_int \<bar>n\<bar> :: rat) < of_int (k + 1)" by simp
  then have "\<bar>n\<bar> < k + 1" by (simp only: of_int_less_iff)
  then show ?thesis by simp
qed

lemma abs_int_lower:
  fixes n :: int
  assumes "\<bar>of_int n - z\<bar> \<le> (1 / 2 :: rat)" and "of_int k \<le> \<bar>z\<bar>"
  shows "k \<le> \<bar>n\<bar>"
proof -
  have "of_int k - 1 / 2 \<le> \<bar>(of_int n :: rat)\<bar>" using assms by linarith
  then have "(of_int (k - 1) :: rat) < of_int \<bar>n\<bar>" by simp
  then have "k - 1 < \<bar>n\<bar>" by (simp only: of_int_less_iff)
  then show ?thesis by simp
qed

lemma powi_shift:
  "(2::rat) powi (e + 1) = 2 ^ 53 * 2 powi (e - 52)"
  "(2::rat) powi e = 2 ^ 52 * 2 powi (e - 52)"
proof -
  have "e + 1 = 53 + (e - 52)" by simp
  then have "(2::rat) powi (e + 1) = 2 powi (53 + (e - 52))" by (simp only:)
  also have "\<dots> = 2 powi 53 * 2 powi (e - 52)" by (rule power_int_add) simp
  finally show "(2::rat) powi (e + 1) = 2 ^ 53 * 2 powi (e - 52)" by simp
  have "e = 52 + (e - 52)" by simp
  then have "(2::rat) powi e = 2 powi (52 + (e - 52))" by (simp only:)
  also have "\<dots> = 2 powi 52 * 2 powi (e - 52)" by (rule power_int_add) simp
  finally show "(2::rat) powi e = 2 ^ 52 * 2 powi (e - 52)" by simp
qed

text \<open>What rounding returns is a Number.\<close>

lemma round64_number:
  assumes "round64 q = Fin r"
  shows "isNumber r"
proof (cases "q = 0")
  case True
  then show ?thesis using assms by (simp add: round64_zero isNumber_zero)
next
  case False
  define n where "n = roundEven (q / ulp q)"
  define e where "e = expo q"
  have r: "r = of_int n * ulp q" using round64_Fin(2) [OF False assms] by (simp add: n_def)
  have e1023: "e \<le> 1023" using round64_Fin(1) [OF False assms] by (simp add: e_def)
  have noover: "\<not> (e = 1023 \<and> 2 ^ 53 \<le> \<bar>n\<bar>)"
    using round64_Fin(3) [OF False assms] by (simp add: e_def n_def)
  have near: "\<bar>of_int n - q / ulp q\<bar> \<le> 1 / 2" unfolding n_def by (rule roundEven_near)
  have "\<bar>q / ulp q\<bar> < of_int (2 ^ 53)" using scaled_upper [OF False] by simp
  with near have nhi: "\<bar>n\<bar> \<le> 2 ^ 53" by (rule abs_int_bound)
  have u: "ulp q = 2 powi (e - 52)" by (simp add: ulp_def e_def)
  have absr: "\<bar>r\<bar> = of_int \<bar>n\<bar> * 2 powi (e - 52)"
    by (simp add: r u abs_mult)
  show ?thesis
  proof (cases "n = 0")
    case True
    then show ?thesis by (simp add: r isNumber_zero)
  next
    case nz: False
    then have rnz: "r \<noteq> 0" using ulp_pos [of q] by (simp add: r)
    show ?thesis
    proof (cases "\<bar>n\<bar> = 2 ^ 53")
      case True
      then have e1022: "e \<le> 1022" using noover e1023 by auto
      have ar: "\<bar>r\<bar> = 2 powi (e + 1)"
        by (simp add: absr True powi_shift(1))
      have "expo r = e + 1"
      proof (rule expo_eqI)
        show "- 1022 \<le> e + 1" using expo_ge [of q] by (simp add: e_def)
        show "2 powi (e + 1) \<le> \<bar>r\<bar>" by (simp add: ar)
        show "\<bar>r\<bar> < 2 powi (e + 1 + 1)"
          unfolding ar by (intro power_int_strict_increasing) simp_all
      qed
      then have "ulp r = 2 powi (e - 52 + 1)" by (simp add: ulp_def)
      also have "\<dots> = 2 powi (e - 52) * 2" by (rule power_int_add_1) simp
      finally have ur: "ulp r = 2 * ulp q" by (simp add: u)
      have "r / ulp r = r / (2 * ulp q)" by (simp only: ur)
      also have "\<dots> = (of_int n * ulp q) / (2 * ulp q)" by (simp only: r)
      also have "\<dots> = of_int n * (1 / 2)" using ulp_pos [of q] by simp
      finally have "r / ulp r = of_int n * (1 / 2)" .
      moreover have "even n" using True
        by (metis even_abs_add_iff even_add even_numeral even_power zero_less_numeral)
      then obtain h where "n = 2 * h" by (elim evenE)
      ultimately have "r / ulp r = of_int h" by simp
      then show ?thesis using rnz e1022 \<open>expo r = e + 1\<close> by (intro isNumberI [of r h]) simp_all
    next
      case False
      then have nlt: "\<bar>n\<bar> < 2 ^ 53" using nhi by simp
      have "\<bar>r\<bar> < of_int (2 ^ 53) * 2 powi (e - 52)"
        unfolding absr using nlt
        by (intro mult_strict_right_mono) (simp_all only: of_int_less_iff zero_less_power_int zero_less_numeral)
      also have "\<dots> = 2 powi (e + 1)"
        by (simp add: powi_shift(1))
      finally have rhi: "\<bar>r\<bar> < 2 powi (e + 1)" .
      have "expo r = e"
      proof (cases "- 1022 < e")
        case True
        have "of_int (2 ^ 52) \<le> \<bar>q / ulp q\<bar>"
          using scaled_lower [OF \<open>q \<noteq> 0\<close>] True by (simp add: e_def)
        with near have "2 ^ 52 \<le> \<bar>n\<bar>" by (rule abs_int_lower)
        then have "(of_int (2 ^ 52) :: rat) \<le> of_int \<bar>n\<bar>" by (simp only: of_int_le_iff)
        then have "of_int (2 ^ 52) * 2 powi (e - 52) \<le> \<bar>r\<bar>"
          unfolding absr by (intro mult_right_mono) simp_all
        moreover have "of_int (2 ^ 52) * 2 powi (e - 52) = (2::rat) powi e"
          by (simp add: powi_shift(2) [of e])
        ultimately have "2 powi e \<le> \<bar>r\<bar>" by simp
        then show ?thesis using rhi True by (intro expo_eqI) simp_all
      next
        case False
        then have em: "e = - 1022" using expo_ge [of q] by (simp add: e_def)
        show ?thesis
        proof (cases "\<bar>r\<bar> < 2 powi (- 1022)")
          case True
          then show ?thesis using rnz by (simp add: em expo_subnormal)
        next
          case False
          then show ?thesis using rhi by (intro expo_eqI) (simp_all add: em)
        qed
      qed
      then have ur: "ulp r = ulp q" by (simp add: ulp_def e_def)
      have "r / ulp r = r / ulp q" by (simp only: ur)
      also have "\<dots> = (of_int n * ulp q) / ulp q" by (simp only: r)
      also have "\<dots> = of_int n" using ulp_pos [of q] by simp
      finally have "r / ulp r = of_int n" .
      then show ?thesis using rnz e1023 \<open>expo r = e\<close> by (intro isNumberI [of r n]) simp_all
    qed
  qed
qed

lemma powi_half: "(2::rat) powi (k - 1) = 2 powi k / 2"
  using power_int_diff [of "2::rat" k 1] by simp

lemma isNumber_int_scaled:
  assumes "isNumber y" and "0 < y"
  obtains m where "y = of_int m * ulp y" and "0 < m" and "m < 2 ^ 53" and "expo y \<le> 1023"
proof -
  have nz: "y \<noteq> 0" using assms(2) by simp
  define m where "m = roundEven (y / ulp y)"
  have ym: "y / ulp y = of_int m" using isNumber_scaled(1) [OF assms(1) nz] by (simp add: m_def)
  then have y: "y = of_int m * ulp y" using ulp_pos [of y] by (simp add: field_simps)
  have "0 < y / ulp y" using assms(2) ulp_pos [of y] by simp
  then have "(0::rat) < of_int m" by (simp only: ym)
  then have m0: "0 < m" by simp
  have "\<bar>y / ulp y\<bar> < 2 ^ 53" using nz by (rule scaled_upper)
  then have "(of_int m :: rat) < of_int (2 ^ 53)" using m0 by (simp add: ym)
  then have m53: "m < 2 ^ 53" by (simp only: of_int_less_iff)
  show ?thesis using y m0 m53 isNumber_scaled(2) [OF assms(1) nz] by (rule that)
qed

lemma round64_attract:
  assumes num: "isNumber y" and ypos: "0 < y" and xpos: "0 < x"
    and close: "\<bar>x - y\<bar> < ulp y / 2"
    and pow: "y = 2 powi (expo y) \<Longrightarrow> - 1022 < expo y \<Longrightarrow> x < y \<Longrightarrow> y - x < ulp y / 4"
  shows "round64 x = Fin y"
proof -
  define e where "e = expo y"
  define u where "u = ulp y"
  have u: "u = 2 powi (e - 52)" by (simp add: u_def e_def ulp_def)
  have upos: "0 < u" by (simp add: u_def ulp_pos)
  obtain m where y: "y = of_int m * u" and m0: "0 < m" and m53: "m < 2 ^ 53" and e1023: "e \<le> 1023"
    using isNumber_int_scaled [OF num ypos] by (auto simp add: u_def e_def)
  have xnz: "x \<noteq> 0" using xpos by simp
  have close': "\<bar>x - y\<bar> < u / 2" using close by (simp only: u_def)
  then have cl: "x - y < u / 2" "y - x < u / 2" by (simp_all only: abs_less_iff minus_diff_eq)
  have hi: "2 powi (e + 1) = 2 ^ 53 * u" unfolding u by (rule powi_shift(1))
  have lo: "2 powi e = 2 ^ 52 * u" unfolding u by (rule powi_shift(2))
  have same: "round64 x = Fin y" if ex: "expo x = e"
  proof -
    have ux: "ulp x = u" using ex by (simp add: ulp_def u)
    have "x / u - of_int m = (x - y) / u" using upos by (simp add: y field_simps)
    then have "\<bar>x / u - of_int m\<bar> = \<bar>x - y\<bar> / u" using upos by (simp add: abs_divide)
    also have "\<dots> < (u / 2) / u" using close' upos by (intro divide_strict_right_mono)
    also have "\<dots> = 1 / 2" using upos by simp
    finally have c: "\<bar>x / ulp x - of_int m\<bar> < 1 / 2" by (simp add: ux)
    have "round64 x = Fin (of_int m * ulp x)"
      using xnz c m0 m53 e1023 by (intro round64_eqI) (simp_all add: ex)
    then show ?thesis by (simp add: ux y)
  qed
  have "m \<le> 2 ^ 53 - 1" using m53 by simp
  then have "(of_int m :: rat) \<le> of_int (2 ^ 53 - 1)" by (simp only: of_int_le_iff)
  then have "of_int m * u \<le> of_int (2 ^ 53 - 1) * u" using upos by (intro mult_right_mono) simp_all
  moreover have "of_int (2 ^ 53 - 1) * u = 2 powi (e + 1) - u"
    unfolding hi by (simp add: left_diff_distrib)
  ultimately have ytop: "y \<le> 2 powi (e + 1) - u" by (simp only: y)
  have xtop: "x < 2 powi (e + 1)"
  proof -
    have "x < y + u / 2" using cl(1) by linarith
    then show ?thesis using ytop upos by linarith
  qed
  show ?thesis
  proof (cases "expo x = e")
    case True
    then show ?thesis by (rule same)
  next
    case False
    have e_gt: "- 1022 < e"
    proof (rule ccontr)
      assume "\<not> - 1022 < e"
      then have em: "e = - 1022" using expo_ge [of y] by (simp add: e_def)
      have "expo x = - 1022"
      proof (cases "\<bar>x\<bar> < 2 powi (- 1022)")
        case True
        then show ?thesis using xnz by (simp add: expo_subnormal)
      next
        case False
        then show ?thesis using xtop xpos by (intro expo_eqI) (simp_all add: em)
      qed
      then show False using False em by simp
    qed
    have xlow: "x < 2 powi e"
    proof (rule ccontr)
      assume "\<not> x < 2 powi e"
      then have "expo x = e" using xtop xpos e_gt by (intro expo_eqI) simp_all
      then show False using False by simp
    qed
    have ylow: "2 powi e \<le> y" using expo_lower [of y] ypos e_gt by (simp add: e_def)
    have yeq: "y = 2 powi e"
    proof (rule ccontr)
      assume "y \<noteq> 2 powi e"
      then have "2 powi e < y" using ylow by simp
      then have "2 ^ 52 * u < of_int m * u" by (simp only: y lo)
      then have "(of_int (2 ^ 52) :: rat) < of_int m" using upos by simp
      then have "2 ^ 52 < m" by (simp only: of_int_less_iff)
      then have "2 ^ 52 + 1 \<le> m" by simp
      then have "(of_int (2 ^ 52 + 1) :: rat) \<le> of_int m" by (simp only: of_int_le_iff)
      then have "of_int (2 ^ 52 + 1) * u \<le> of_int m * u"
        using upos by (intro mult_right_mono) simp_all
      moreover have "of_int (2 ^ 52 + 1) * u = 2 powi e + u"
        unfolding lo by (simp add: distrib_right)
      ultimately have "2 powi e + u \<le> y" by (simp only: y)
      then have "u < y - x" using xlow by linarith
      then show False using cl(2) upos by linarith
    qed
    have xy: "x < y" using xlow yeq by simp
    have p1: "y = 2 powi (expo y)" using yeq by (simp only: e_def)
    have p2: "- 1022 < expo y" using e_gt by (simp only: e_def)
    have quarter: "y - x < u / 4" using pow [OF p1 p2 xy] by (simp only: u_def)
    have u4: "u / 4 \<le> 2 powi e / 2"
    proof -
      have "u \<le> 2 ^ 52 * u" using upos by simp
      then show ?thesis by (simp add: lo)
    qed
    have xlo2: "2 powi (e - 1) \<le> x" using quarter u4 yeq by (simp add: powi_half)
    have ex: "expo x = e - 1" using xlo2 xlow xpos e_gt by (intro expo_eqI) simp_all
    have ux: "ulp x = u / 2"
    proof -
      have "e - 1 - 52 = e - 52 - 1" by simp
      then have "ulp x = 2 powi (e - 52 - 1)" using ex by (simp only: ulp_def)
      then show ?thesis by (simp only: powi_half u)
    qed
    have yscaled: "y / ulp x = of_int (2 ^ 53)" using upos by (simp add: ux yeq lo)
    have "x / ulp x - of_int (2 ^ 53) = (x - y) / ulp x"
      using yscaled by (simp add: diff_divide_distrib)
    then have "\<bar>x / ulp x - of_int (2 ^ 53)\<bar> = (y - x) / (u / 2)"
      using xy upos by (simp add: ux abs_divide)
    also have "\<dots> < (u / 4) / (u / 2)"
      using quarter upos by (intro divide_strict_right_mono) simp_all
    also have "\<dots> = 1 / 2" using upos by simp
    finally have c: "\<bar>x / ulp x - of_int (2 ^ 53)\<bar> < 1 / 2" .
    have "round64 x = Fin (of_int (2 ^ 53) * ulp x)"
      using xnz c e1023 by (intro round64_eqI) (simp_all add: ex)
    moreover have "of_int (2 ^ 53) * ulp x = y" using yscaled ulp_pos [of x] by (simp add: field_simps)
    ultimately show ?thesis by simp
  qed
qed

subsection \<open>Digits and their reading\<close>

lemma digitChar_props:
  assumes "0 \<le> d" and "d \<le> 9"
  shows "isDigit (digitChar d)" and "digitVal (digitChar d) = d" and "\<not> isWhite (digitChar d)"
proof -
  have "d = 0 \<or> d = 1 \<or> d = 2 \<or> d = 3 \<or> d = 4 \<or> d = 5 \<or> d = 6 \<or> d = 7 \<or> d = 8 \<or> d = 9"
    using assms by presburger
  then show "isDigit (digitChar d)" and "digitVal (digitChar d) = d" and "\<not> isWhite (digitChar d)"
    by (auto simp add: digitChar_def isDigit_def digitVal_def isWhite_def)
qed

lemma digitsVal_snoc: "digitsVal b (ds @ [c]) = digitsVal b ds * b + digitVal c"
  by (simp add: digitsVal_def)

lemma decimal_step: "10 \<le> n \<Longrightarrow> decimal n = decimal (n div 10) @ [digitChar (n mod 10)]"
  by (subst decimal.simps) simp

lemma decimal_small: "n < 10 \<Longrightarrow> decimal n = [digitChar n]"
  by (subst decimal.simps) simp

lemma decimal_props:
  "0 \<le> n \<Longrightarrow> list_all isDigit (decimal n) \<and> decimal n \<noteq> [] \<and> digitsVal 10 (decimal n) = n"
proof (induction n rule: decimal.induct)
  case (1 n)
  show ?case
  proof (cases "n < 10")
    case True
    then show ?thesis using 1(2) by (simp add: decimal_small digitChar_props digitsVal_def)
  next
    case False
    then have ih: "list_all isDigit (decimal (n div 10)) \<and> decimal (n div 10) \<noteq> []
                   \<and> digitsVal 10 (decimal (n div 10)) = n div 10"
      using 1 by simp
    have m: "0 \<le> n mod 10" "n mod 10 \<le> 9" by simp_all
    show ?thesis using False ih
      by (simp add: decimal_step digitsVal_snoc digitChar_props [OF m])
  qed
qed

lemma decimal_length:
  "1 \<le> k \<Longrightarrow> 10 ^ (k - 1) \<le> n \<Longrightarrow> n < 10 ^ k \<Longrightarrow> length (decimal n) = k"
proof (induction k arbitrary: n)
  case 0
  then show ?case by simp
next
  case (Suc k)
  show ?case
  proof (cases "k = 0")
    case True
    then have "n < 10" using Suc.prems by simp
    then show ?thesis using True by (simp add: decimal_small)
  next
    case False
    then have k1: "1 \<le> k" by simp
    have kk: "k = Suc (k - 1)" using False by simp
    have "10 * 10 ^ (k - 1) \<le> n" using Suc.prems(2) kk by (metis diff_Suc_1 power_Suc)
    then have lo: "10 ^ (k - 1) \<le> n div 10" by simp
    have "n < 10 * 10 ^ k" using Suc.prems(3) by simp
    then have hi: "n div 10 < 10 ^ k" by simp
    have "(1::int) \<le> 10 ^ (k - 1)" by simp
    then have ten: "10 \<le> n" using \<open>10 * 10 ^ (k - 1) \<le> n\<close> by linarith
    have "length (decimal (n div 10)) = k" using k1 lo hi by (rule Suc.IH)
    then show ?thesis using ten by (simp add: decimal_step)
  qed
qed

lemma digitsVal_append_zeros:
  "digitsVal 10 (ds @ replicate j CHR ''0'') = digitsVal 10 ds * 10 ^ j"
proof (induction j)
  case 0
  show ?case by simp
next
  case (Suc j)
  have z: "digitVal CHR ''0'' = 0" by (simp add: digitVal_def)
  have "ds @ replicate (Suc j) CHR ''0'' = (ds @ replicate j CHR ''0'') @ [CHR ''0'']"
    by (simp add: replicate_append_same)
  then show ?case using Suc by (simp only: digitsVal_snoc z) simp
qed

lemma digitsVal_leading_zeros:
  "digitsVal 10 (replicate j CHR ''0'' @ ds) = digitsVal 10 ds"
proof -
  have z: "digitVal CHR ''0'' = 0" by (simp add: digitVal_def)
  have "foldl (\<lambda>acc c. acc * 10 + digitVal c) 0 (replicate j CHR ''0'') = 0"
    by (induction j) (simp_all add: z)
  then show ?thesis by (simp add: digitsVal_def)
qed

lemma span_digits:
  assumes "list_all isDigit A" and "rest = [] \<or> \<not> isDigit (hd rest)"
  shows "takeWhile isDigit (A @ rest) = A" and "dropWhile isDigit (A @ rest) = rest"
  using assms by (induction A) (auto simp add: takeWhile_eq_Nil_iff dropWhile_eq_self_iff)

lemma not_digit: "\<not> isDigit CHR ''e''" "\<not> isDigit CHR ''.''" "\<not> isDigit CHR ''-''" "\<not> isDigit CHR ''+''"
  by (simp_all add: isDigit_def)

lemma scanExponent_Nil: "scanExponent [] = (0, [])"
  by (simp add: scanExponent_def)

lemma scanExponent_digits:
  assumes "list_all isDigit D" and "D \<noteq> []"
  shows "scanExponent (''e'' @ ''-'' @ D) = (- digitsVal 10 D, [])"
    and "scanExponent (''e'' @ ''+'' @ D) = (digitsVal 10 D, [])"
proof -
  have t: "takeWhile isDigit D = D" "dropWhile isDigit D = []"
    using span_digits [OF assms(1), of "[]"] by simp_all
  show "scanExponent (''e'' @ ''-'' @ D) = (- digitsVal 10 D, [])"
    and "scanExponent (''e'' @ ''+'' @ D) = (digitsVal 10 D, [])"
    using assms(2) by (simp_all add: scanExponent_def t Let_def)
qed

lemma scanExponent_expPart: "scanExponent (expPart e) = (e, [])"
proof -
  have d: "list_all isDigit (decimal \<bar>e\<bar>)" "decimal \<bar>e\<bar> \<noteq> []"
    using decimal_props [of "\<bar>e\<bar>"] by simp_all
  have v: "digitsVal 10 (decimal \<bar>e\<bar>) = \<bar>e\<bar>"
    using decimal_props [of "\<bar>e\<bar>"] by simp
  show ?thesis
  proof (cases "e < 0")
    case True
    then have "expPart e = ''e'' @ ''-'' @ decimal \<bar>e\<bar>" by (simp only: expPart_def if_True)
    then show ?thesis using True by (simp only: scanExponent_digits(1) [OF d] v) simp
  next
    case False
    then have "expPart e = ''e'' @ ''+'' @ decimal \<bar>e\<bar>" by (simp only: expPart_def if_False)
    then show ?thesis using False by (simp only: scanExponent_digits(2) [OF d] v) simp
  qed
qed

lemma expPart_head: "expPart e \<noteq> []" "hd (expPart e) = CHR ''e''"
  by (simp_all add: expPart_def)

lemma scanDecimal_point:
  assumes "list_all isDigit ip" and "list_all isDigit fp" and "ip \<noteq> [] \<or> fp \<noteq> []"
    and "scanExponent et = (ex, [])" and "et = [] \<or> \<not> isDigit (hd et)"
  shows "scanDecimal (ip @ ''.'' @ fp @ et) =
           Some (of_int (digitsVal 10 (ip @ fp)) * ipow 10 (ex - int (length fp)), [])"
proof -
  have a: "takeWhile isDigit (ip @ ''.'' @ fp @ et) = ip"
          "dropWhile isDigit (ip @ ''.'' @ fp @ et) = ''.'' @ fp @ et"
    using span_digits [OF assms(1), of "''.'' @ fp @ et"] by (simp_all add: not_digit)
  have b: "takeWhile isDigit (fp @ et) = fp" "dropWhile isDigit (fp @ et) = et"
    using span_digits [OF assms(2) assms(5)] by simp_all
  show ?thesis
    unfolding scanDecimal_def Let_def a
    using assms(3) by (simp add: b assms(4))
qed

lemma scanDecimal_plain:
  assumes "list_all isDigit ip" and "ip \<noteq> []"
    and "scanExponent et = (ex, [])" and "et = [] \<or> hd et = CHR ''e''"
  shows "scanDecimal (ip @ et) = Some (of_int (digitsVal 10 ip) * ipow 10 ex, [])"
proof -
  have nd: "et = [] \<or> \<not> isDigit (hd et)" using assms(4) by (auto simp add: not_digit)
  have a: "takeWhile isDigit (ip @ et) = ip" "dropWhile isDigit (ip @ et) = et"
    using span_digits [OF assms(1) nd] by simp_all
  have c: "(case et of [] \<Rightarrow> ([], et)
            | c # r \<Rightarrow> if c = CHR ''.'' then (takeWhile isDigit r, dropWhile isDigit r) else ([], et))
           = ([], et)"
    using assms(4) by (cases et) auto
  show ?thesis
    unfolding scanDecimal_def Let_def a c
    using assms(2) by (simp add: assms(3))
qed

lemma ipow_nonneg: "0 \<le> j \<Longrightarrow> ipow 10 j = of_int (10 ^ nat j)"
  by (simp add: ipow_def)

lemma digits_zeros: "list_all isDigit (replicate j CHR ''0'')"
  by (induction j) (simp_all add: isDigit_def)

lemma render_expPart:
  "\<not> (- 5 \<le> n \<and> n \<le> 21) \<Longrightarrow>
   render ds n = (if int (length ds) = 1 then ds @ expPart (n - 1)
                  else take 1 ds @ ''.'' @ drop 1 ds @ expPart (n - 1))"
  by (cases "- 5 \<le> n"; cases "n \<le> 21") (simp_all add: render_def expPart_def Let_def)

lemma scanDecimal_render:
  assumes d: "list_all isDigit ds" and ne: "ds \<noteq> []"
  shows "scanDecimal (render ds n) =
           Some (of_int (digitsVal 10 ds) * ipow 10 (n - int (length ds)), [])"
proof -
  define k where "k = int (length ds)"
  have k1: "1 \<le> k" using ne by (cases ds) (simp_all add: k_def)
  show ?thesis
  proof (cases "- 5 \<le> n \<and> n \<le> 21")
    case plain: True
    show ?thesis
    proof (cases "k \<le> n")
      case True
      define j where "j = nat (n - k)"
      have r: "render ds n = (ds @ replicate j CHR ''0'') @ []"
        using plain True by (simp add: render_def k_def j_def Let_def)
      have z: "list_all isDigit (ds @ replicate j CHR ''0'')"
        using d by (simp add: digits_zeros)
      have "scanDecimal (render ds n) =
              Some (of_int (digitsVal 10 (ds @ replicate j CHR ''0'')) * ipow 10 0, [])"
        unfolding r using z ne by (intro scanDecimal_plain) (simp_all add: scanExponent_Nil)
      moreover have "ipow 10 (n - k) = of_int (10 ^ j)"
        using True by (simp add: ipow_nonneg j_def)
      ultimately show ?thesis
        by (simp add: digitsVal_append_zeros k_def [symmetric] ipow_def)
    next
      case False
      show ?thesis
      proof (cases "0 < n")
        case True
        define ip where "ip = take (nat n) ds"
        define fp where "fp = drop (nat n) ds"
        have r: "render ds n = ip @ ''.'' @ fp @ []"
          using plain False True by (simp add: render_def k_def ip_def fp_def Let_def)
        have di: "list_all isDigit ip" "list_all isDigit fp"
          using d by (auto simp add: ip_def fp_def list_all_iff dest: in_set_takeD in_set_dropD)
        have ine: "ip \<noteq> [] \<or> fp \<noteq> []" using ne True by (simp add: ip_def)
        have len: "int (length fp) = k - n" using False True by (simp add: fp_def k_def)
        have "scanDecimal (render ds n) =
                Some (of_int (digitsVal 10 (ip @ fp)) * ipow 10 (0 - int (length fp)), [])"
          unfolding r using di ine by (intro scanDecimal_point) (simp_all add: scanExponent_Nil)
        moreover have "0 - int (length fp) = n - int (length ds)" using len by (simp add: k_def)
        moreover have "ip @ fp = ds" by (simp add: ip_def fp_def)
        ultimately show ?thesis by (simp only:)
      next
        case neg: False
        define j where "j = nat (- n)"
        have r: "render ds n = ''0'' @ ''.'' @ (replicate j CHR ''0'' @ ds) @ []"
          using plain False neg by (simp add: render_def k_def j_def Let_def)
        have di: "list_all isDigit ''0''" "list_all isDigit (replicate j CHR ''0'' @ ds)"
          using d digits_zeros [of 1] by (simp_all add: digits_zeros)
        have len: "int (length (replicate j CHR ''0'' @ ds)) = k - n"
          using neg by (simp add: j_def k_def)
        have v: "digitsVal 10 (''0'' @ replicate j CHR ''0'' @ ds) = digitsVal 10 ds"
          using digitsVal_leading_zeros [of "Suc j" ds] by simp
        have "scanDecimal (render ds n) =
                Some (of_int (digitsVal 10 (''0'' @ replicate j CHR ''0'' @ ds))
                      * ipow 10 (0 - int (length (replicate j CHR ''0'' @ ds))), [])"
          unfolding r using di by (intro scanDecimal_point) (simp_all add: scanExponent_Nil)
        moreover have "0 - int (length (replicate j CHR ''0'' @ ds)) = n - int (length ds)"
          using len by (simp add: k_def)
        ultimately show ?thesis by (simp only: v)
      qed
    qed
  next
    case ex: False
    show ?thesis
    proof (cases "k = 1")
      case True
      have r: "render ds n = ds @ expPart (n - 1)"
        using ex True by (simp add: render_expPart k_def)
      have "scanDecimal (render ds n) = Some (of_int (digitsVal 10 ds) * ipow 10 (n - 1), [])"
        unfolding r using d ne
        by (intro scanDecimal_plain) (simp_all add: scanExponent_expPart expPart_head)
      then show ?thesis using True by (simp add: k_def)
    next
      case False
      define ip where "ip = take 1 ds"
      define fp where "fp = drop 1 ds"
      have r: "render ds n = ip @ ''.'' @ fp @ expPart (n - 1)"
        using ex False by (simp add: render_expPart k_def ip_def fp_def)
      have di: "list_all isDigit ip" "list_all isDigit fp"
        using d by (auto simp add: ip_def fp_def list_all_iff dest: in_set_takeD in_set_dropD)
      have ine: "ip \<noteq> [] \<or> fp \<noteq> []" using ne by (simp add: ip_def)
      have len: "int (length fp) = k - 1" using k1 by (simp add: fp_def k_def)
      have "scanDecimal (render ds n) =
              Some (of_int (digitsVal 10 (ip @ fp)) * ipow 10 (n - 1 - int (length fp)), [])"
        unfolding r using di ine
        by (intro scanDecimal_point) (simp_all add: scanExponent_expPart expPart_head not_digit)
      moreover have "n - 1 - int (length fp) = n - int (length ds)" using len by (simp add: k_def)
      moreover have "ip @ fp = ds" by (simp add: ip_def fp_def)
      ultimately show ?thesis by (simp only:)
    qed
  qed
qed

lemma digit_not_white: "isDigit c \<Longrightarrow> \<not> isWhite c"
  by (auto simp add: isDigit_def isWhite_def)

lemma digit_not_sign: "isDigit c \<Longrightarrow> c \<noteq> CHR ''-'' \<and> c \<noteq> CHR ''+'' \<and> c \<noteq> CHR ''I''"
  by (auto simp add: isDigit_def)

lemma expPart_last: "isDigit (last (expPart e))"
proof -
  have d: "list_all isDigit (decimal \<bar>e\<bar>)" "decimal \<bar>e\<bar> \<noteq> []"
    using decimal_props [of "\<bar>e\<bar>"] by simp_all
  then have "isDigit (last (decimal \<bar>e\<bar>))" by (simp add: list_all_iff)
  then show ?thesis using d(2) by (simp add: expPart_def)
qed

lemma render_ends:
  assumes d: "list_all isDigit ds" and ne: "ds \<noteq> []"
  shows "render ds n \<noteq> []" and "isDigit (hd (render ds n))" and "isDigit (last (render ds n))"
proof -
  have h: "isDigit (hd ds)" and l: "isDigit (last ds)" using d ne by (simp_all add: list_all_iff)
  have z: "isDigit CHR ''0''" by (simp add: isDigit_def)
  have ht: "hd (take (nat n) ds) = hd ds" if "0 < n" for n :: int
    using that ne by (cases ds) (simp_all add: take_Cons' )
  have "render ds n \<noteq> [] \<and> isDigit (hd (render ds n)) \<and> isDigit (last (render ds n))"
  proof (cases "- 5 \<le> n \<and> n \<le> 21")
    case True
    then show ?thesis using ne h l z ht
      by (auto simp add: render_def Let_def hd_append last_append)
  next
    case False
    have e: "expPart (n - 1) \<noteq> []" by (rule expPart_head)
    show ?thesis using ne h e expPart_last [of "n - 1"]
      by (auto simp add: render_expPart [OF False] hd_append take_Suc)
  qed
  then show "render ds n \<noteq> []" and "isDigit (hd (render ds n))" and "isDigit (last (render ds n))"
    by simp_all
qed

lemma scanSigned_digit:
  assumes "s \<noteq> []" and "isDigit (hd s)"
  shows "scanSigned s = (case scanDecimal s of None \<Rightarrow> None
                         | Some (v, rest) \<Rightarrow> Some (round64 v, rest))"
    and "scanSigned (CHR ''-'' # s) = (case scanDecimal s of None \<Rightarrow> None
                         | Some (v, rest) \<Rightarrow> Some (round64 (- v), rest))"
proof -
  obtain c r where s: "s = c # r" using assms(1) by (cases s) auto
  have c: "c \<noteq> CHR ''-''" "c \<noteq> CHR ''+''" "c \<noteq> CHR ''I''"
    using digit_not_sign [of c] assms(2) by (simp_all add: s)
  have t: "take 8 s \<noteq> ''Infinity''" using c(3) by (simp add: s)
  show "scanSigned s = (case scanDecimal s of None \<Rightarrow> None
                         | Some (v, rest) \<Rightarrow> Some (round64 v, rest))"
    using t c by (simp add: scanSigned_def s split: option.split)
  show "scanSigned (CHR ''-'' # s) = (case scanDecimal s of None \<Rightarrow> None
                         | Some (v, rest) \<Rightarrow> Some (round64 (- v), rest))"
    using t by (simp add: scanSigned_def split: option.split)
qed

lemma trim_id:
  assumes "s \<noteq> []" and "\<not> isWhite (hd s)" and "\<not> isWhite (last s)"
  shows "trim s = s"
proof -
  have a: "dropWhile isWhite s = s" using assms(1,2) by (cases s) simp_all
  have "rev s \<noteq> []" "\<not> isWhite (hd (rev s))" using assms(1,3) by (simp_all add: hd_rev)
  then have b: "dropWhile isWhite (rev s) = rev s" by (cases "rev s") simp_all
  show ?thesis by (simp add: trim_def a b)
qed

lemma getNumericValue_digits:
  assumes "s \<noteq> []" and "isDigit (hd s)" and "isDigit (last s)" and "scanDecimal s = Some (v, rest)"
  shows "getNumericValue s = round64 v" and "getNumericValue (CHR ''-'' # s) = round64 (- v)"
proof -
  have w: "\<not> isWhite (hd s)" "\<not> isWhite (last s)" using assms(2,3) by (simp_all add: digit_not_white)
  have t1: "trim s = s" using assms(1) w by (rule trim_id)
  have m: "\<not> isWhite CHR ''-''" by (simp add: isWhite_def)
  have t2: "trim (CHR ''-'' # s) = CHR ''-'' # s"
    using assms(1) w(2) m by (intro trim_id) simp_all
  have d1: "dropWhile isWhite s = s" using assms(1) w(1) by (cases s) simp_all
  have d2: "dropWhile isWhite (CHR ''-'' # s) = CHR ''-'' # s" using m by simp
  show "getNumericValue s = round64 v"
    by (simp add: getNumericValue_def t1 parseFloat_def d1 scanSigned_digit(1) [OF assms(1,2)] assms(4))
  show "getNumericValue (CHR ''-'' # s) = round64 (- v)"
    by (simp only: getNumericValue_def t2 parseFloat_def d2 scanSigned_digit(2) [OF assms(1,2)] assms(4) Let_def)
       simp
qed

subsection \<open>Printing a Number and reading it back\<close>

lemma ipow_pos: "0 < b \<Longrightarrow> 0 < ipow b e"
  by (simp add: ipow_powi)

lemma ipow10_powi: "ipow 10 e = 10 powi e"
  by (simp add: ipow_powi)

lemma floor_scaled_range:
  assumes "0 < q" and "1 \<le> k"
  defines "sc \<equiv> ipow 10 (magnitude 10 q - k)"
  defines "lo \<equiv> \<lfloor>q / sc\<rfloor>"
  shows "10 ^ (nat k - 1) \<le> lo" and "lo < 10 ^ nat k"
    and "of_int lo * sc \<le> q" and "q < of_int (lo + 1) * sc"
proof -
  define n where "n = magnitude 10 q"
  have mb: "10 powi (n - 1) \<le> q" "q < 10 powi n"
    using magnitude_bounds [of 10 q] assms(1) by (simp_all add: n_def)
  have sc: "sc = 10 powi (n - k)" by (simp add: sc_def n_def ipow10_powi)
  have scpos: "0 < sc" by (simp add: sc)
  have "10 powi (n - 1) / sc = 10 powi (n - 1 - (n - k))"
    unfolding sc by (rule power_int_diff [symmetric]) simp
  also have "\<dots> = 10 powi (k - 1)" by simp
  also have "\<dots> = of_int (10 ^ (nat k - 1))"
    using assms(2) by (simp add: power_int_def nat_diff_distrib)
  finally have a: "10 powi (n - 1) / sc = of_int (10 ^ (nat k - 1))" .
  have "10 powi n / sc = 10 powi (n - (n - k))"
    unfolding sc by (rule power_int_diff [symmetric]) simp
  also have "\<dots> = of_int (10 ^ nat k)" using assms(2) by (simp add: power_int_def)
  finally have b: "10 powi n / sc = of_int (10 ^ nat k)" .
  have "of_int (10 ^ (nat k - 1)) \<le> q / sc"
    using mb(1) scpos by (simp only: a [symmetric] divide_right_mono less_imp_le)
  then show "10 ^ (nat k - 1) \<le> lo" unfolding lo_def by (simp only: le_floor_iff)
  have "q / sc < of_int (10 ^ nat k)"
    using mb(2) scpos by (simp only: b [symmetric] divide_strict_right_mono)
  then show "lo < 10 ^ nat k" unfolding lo_def by (simp only: floor_less_iff)
  have "of_int lo \<le> q / sc" unfolding lo_def by (rule of_int_floor_le)
  then show "of_int lo * sc \<le> q" using scpos by (simp add: pos_le_divide_eq)
  have "q / sc < of_int (lo + 1)" unfolding lo_def by linarith
  then show "q < of_int (lo + 1) * sc" using scpos by (simp only: pos_divide_less_eq)
qed

lemma nearer_props:
  assumes "of_int lo * sc \<le> q" and "q < of_int (lo + 1) * sc"
  shows "nearer q sc lo = lo \<or> nearer q sc lo = lo + 1"
    and "\<bar>of_int (nearer q sc lo) * sc - q\<bar> \<le> sc / 2"
proof -
  show "nearer q sc lo = lo \<or> nearer q sc lo = lo + 1"
    by (simp add: nearer_def Let_def)
  define L where "L = of_int lo * sc"
  have s: "of_int (lo + 1) * sc = L + sc" by (simp add: distrib_right L_def)
  have b: "L \<le> q" "q < L + sc" using assms by (simp_all only: s L_def [symmetric])
  consider (lo) "nearer q sc lo = lo" "q - L \<le> L + sc - q"
    | (hi) "nearer q sc lo = lo + 1" "L + sc - q \<le> q - L"
    unfolding nearer_def Let_def s L_def [symmetric]
    by (cases "q - L < L + sc - q"; cases "L + sc - q < q - L"; cases "even lo") simp_all
  then show "\<bar>of_int (nearer q sc lo) * sc - q\<bar> \<le> sc / 2"
  proof cases
    case lo
    have "of_int (nearer q sc lo) * sc = L" by (simp only: lo(1) L_def)
    then show ?thesis using b lo(2) by linarith
  next
    case hi
    have "of_int (nearer q sc lo) * sc = L + sc" by (simp only: hi(1) s)
    then show ?thesis using b hi(2) by linarith
  qed
qed

text \<open>Seventeen significant digits identify a Number.\<close>

lemma seventeen_digits:
  assumes num: "isNumber q" and pos: "0 < q"
  defines "sc \<equiv> ipow 10 (magnitude 10 q - 17)"
  assumes s: "s = \<lfloor>q / sc\<rfloor> \<or> s = \<lfloor>q / sc\<rfloor> + 1" and near: "\<bar>of_int s * sc - q\<bar> \<le> sc / 2"
  shows "round64 (of_int s * sc) = Fin q"
proof (rule round64_attract [OF num pos])
  define n where "n = magnitude 10 q"
  define e where "e = expo q"
  define u where "u = ulp q"
  have upos: "0 < u" by (simp add: u_def ulp_pos)
  have mb: "10 powi (n - 1) \<le> q"
    using magnitude_bounds [of 10 q] pos by (simp_all add: n_def)
  have sc: "sc = 10 powi (n - 1 - 16)" by (simp add: sc_def n_def ipow10_powi)
  have "(10::rat) powi (n - 1 - 16) = 10 powi (n - 1) / 10 powi 16"
    by (rule power_int_diff) simp
  then have sc16: "sc * 10 ^ 16 = 10 powi (n - 1)" by (simp add: sc)
  have scpos: "0 < sc" by (simp add: sc)
  have scq: "sc * 10 ^ 16 \<le> q" using mb by (simp only: sc16)
  have qtop: "q < 2 ^ 53 * u"
    using expo_upper [of q] pos powi_shift(1) [of "expo q"] by (simp add: u_def ulp_def)
  have lo: "(10::int) ^ (nat 17 - 1) \<le> \<lfloor>q / sc\<rfloor>"
    unfolding sc_def using pos by (intro floor_scaled_range(1)) simp_all
  then have "0 < s" using s by auto
  then show "0 < of_int s * sc" using scpos by simp
  have "sc * 10 ^ 16 < 2 ^ 53 * u" using scq qtop by linarith
  then have "sc < u" using upos scpos by simp
  then show "\<bar>of_int s * sc - q\<bar> < ulp q / 2" using near by (simp add: u_def)
  show "q - of_int s * sc < ulp q / 4"
    if p: "q = 2 powi expo q" and "- 1022 < expo q" and "of_int s * sc < q"
  proof -
    have "q = 2 ^ 52 * u" using p powi_shift(2) [of "expo q"] by (simp add: u_def ulp_def)
    then have "sc * 10 ^ 16 \<le> 2 ^ 52 * u" using scq by simp
    then have "2 * sc < u" using upos scpos by simp
    moreover have "q - of_int s * sc \<le> sc / 2" using near by linarith
    ultimately show ?thesis by (simp add: u_def)
  qed
qed

lemma shortest_ok:
  assumes num: "isNumber q" and pos: "0 < q"
  shows "1 \<le> k \<Longrightarrow> k + int fuel = 17 \<Longrightarrow>
         shortest q (magnitude 10 q) k fuel = (s, k') \<Longrightarrow>
         round64 (of_int s * ipow 10 (magnitude 10 q - k')) = Fin q
         \<and> 1 \<le> k' \<and> 10 ^ (nat k' - 1) \<le> s \<and> s \<le> 10 ^ nat k'"
proof (induction fuel arbitrary: k)
  case 0
  define sc where "sc = ipow 10 (magnitude 10 q - 17)"
  define lo where "lo = \<lfloor>q / sc\<rfloor>"
  have k: "k = 17" using 0 by simp
  have r: "lo * 1 = lo" by simp
  have range: "10 ^ (nat 17 - 1) \<le> lo" "lo < 10 ^ nat 17"
    "of_int lo * sc \<le> q" "q < of_int (lo + 1) * sc"
    unfolding lo_def sc_def using pos by (intro floor_scaled_range; simp)+
  have sk: "s = nearer q sc lo" "k' = 17" using 0(3) by (simp_all add: k sc_def lo_def)
  have s: "s = lo \<or> s = lo + 1" using nearer_props(1) [OF range(3,4)] by (simp add: sk)
  have near: "\<bar>of_int s * sc - q\<bar> \<le> sc / 2" using nearer_props(2) [OF range(3,4)] by (simp add: sk)
  have "round64 (of_int s * sc) = Fin q"
    using num pos s near unfolding sc_def lo_def by (intro seventeen_digits) simp_all
  moreover have "10 ^ (nat 17 - 1) \<le> s" "s \<le> 10 ^ nat 17" using s range(1,2) by auto
  ultimately show ?case by (simp add: sk sc_def)
next
  case (Suc fuel)
  define sc where "sc = ipow 10 (magnitude 10 q - k)"
  define lo where "lo = \<lfloor>q / sc\<rfloor>"
  have range: "10 ^ (nat k - 1) \<le> lo" "lo < 10 ^ nat k"
    "of_int lo * sc \<le> q" "q < of_int (lo + 1) * sc"
    unfolding lo_def sc_def using pos Suc.prems(1) by (intro floor_scaled_range; simp)+
  have hi: "10 ^ (nat k - 1) \<le> lo + 1" "lo + 1 \<le> 10 ^ nat k" using range(1,2) by simp_all
  have lo': "lo \<le> 10 ^ nat k" using range(2) by simp
  define okLo where "okLo = (round64 (of_int lo * sc) = Fin q)"
  define okHi where "okHi = (round64 (of_int (lo + 1) * sc) = Fin q)"
  have unf: "shortest q (magnitude 10 q) k (Suc fuel) =
      (if okLo \<and> okHi then (nearer q sc lo, k)
       else if okLo then (lo, k)
       else if okHi then (lo + 1, k)
       else shortest q (magnitude 10 q) (k + 1) fuel)"
    by (simp add: sc_def lo_def okLo_def okHi_def Let_def)
  consider (both) "okLo" "okHi" | (lo) "okLo" "\<not> okHi" | (hi) "\<not> okLo" "okHi"
    | (none) "\<not> okLo" "\<not> okHi" by blast
  then show ?case
  proof cases
    case both
    then have sk: "s = nearer q sc lo" "k' = k" using Suc.prems(3) unf by simp_all
    have "s = lo \<or> s = lo + 1" using nearer_props(1) [OF range(3,4)] by (simp add: sk)
    then show ?thesis using both range(1) hi lo' Suc.prems(1)
      by (auto simp add: sk(2) okLo_def okHi_def sc_def)
  next
    case lo
    then have sk: "s = lo" "k' = k" using Suc.prems(3) unf by simp_all
    show ?thesis using lo range(1) lo' Suc.prems(1) by (simp add: sk okLo_def sc_def)
  next
    case hi
    then have sk: "s = lo + 1" "k' = k" using Suc.prems(3) unf by simp_all
    show ?thesis using hi \<open>10 ^ (nat k - 1) \<le> lo + 1\<close> \<open>lo + 1 \<le> 10 ^ nat k\<close> Suc.prems(1)
      by (simp add: sk okHi_def sc_def)
  next
    case none
    then have "shortest q (magnitude 10 q) (k + 1) fuel = (s, k')" using Suc.prems(3) unf by simp
    moreover have "1 \<le> k + 1" "k + 1 + int fuel = 17" using Suc.prems by simp_all
    ultimately show ?thesis using Suc.IH [of "k + 1"] by simp
  qed
qed

lemma toStringPos_parse:
  assumes num: "isNumber q" and pos: "0 < q"
  shows "\<exists>ds n. toStringPos q = render ds n \<and> list_all isDigit ds \<and> ds \<noteq> []
           \<and> round64 (of_int (digitsVal 10 ds) * ipow 10 (n - int (length ds))) = Fin q"
proof -
  define n where "n = magnitude 10 q"
  obtain s k where sh: "shortest q n 1 16 = (s, k)" by (cases "shortest q n 1 16")
  have ok: "round64 (of_int s * ipow 10 (n - k)) = Fin q" "1 \<le> k"
    "10 ^ (nat k - 1) \<le> s" "s \<le> 10 ^ nat k"
    using shortest_ok [OF num pos, of 1 16 s k] sh by (simp_all add: n_def)
  have nk: "nat k = Suc (nat k - 1)" using ok(2) by simp
  have s0: "0 \<le> s" using ok(3) order_trans [OF _ ok(3), of 0] by simp
  show ?thesis
  proof (cases "s = 10 ^ nat k")
    case True
    define t :: int where "t = 10 ^ (nat k - 1)"
    have sdiv: "s div 10 = t" using True nk by (metis t_def nonzero_mult_div_cancel_left power_Suc zero_neq_numeral)
    have ts: "toStringPos q = render (decimal t) (n + 1)"
      using sh True sdiv by (simp add: toStringPos_def n_def [symmetric])
    have t0: "0 \<le> t" by (simp add: t_def)
    have dp: "list_all isDigit (decimal t)" "decimal t \<noteq> []" "digitsVal 10 (decimal t) = t"
      using decimal_props [OF t0] by simp_all
    have "t < 10 ^ nat k" using nk by (metis t_def lessI one_less_numeral_iff power_strict_increasing_iff semiring_norm(76))
    then have len: "length (decimal t) = nat k"
      using ok(2) by (intro decimal_length) (simp_all add: t_def)
    have "ipow 10 (n + 1 - k) = 10 powi (n - k + 1)" by (simp add: ipow10_powi algebra_simps)
    also have "\<dots> = 10 powi (n - k) * 10" by (rule power_int_add_1) simp
    finally have p: "ipow 10 (n + 1 - k) = ipow 10 (n - k) * 10" by (simp add: ipow10_powi)
    have "(of_int s :: rat) = of_int t * 10" using True nk by (simp add: t_def) (metis power_Suc mult.commute)
    then have "of_int t * ipow 10 (n + 1 - k) = of_int s * ipow 10 (n - k)" by (simp add: p)
    then have "round64 (of_int (digitsVal 10 (decimal t))
                 * ipow 10 (n + 1 - int (length (decimal t)))) = Fin q"
      using ok(1,2) by (simp add: dp(3) len)
    then show ?thesis using ts dp by blast
  next
    case False
    then have lt: "s < 10 ^ nat k" using ok(4) by simp
    have ts: "toStringPos q = render (decimal s) n"
      using sh False by (simp add: toStringPos_def n_def [symmetric])
    have dp: "list_all isDigit (decimal s)" "decimal s \<noteq> []" "digitsVal 10 (decimal s) = s"
      using decimal_props [OF s0] by simp_all
    have len: "length (decimal s) = nat k" using ok(2,3) lt by (intro decimal_length) simp_all
    have "round64 (of_int (digitsVal 10 (decimal s)) * ipow 10 (n - int (length (decimal s)))) = Fin q"
      using ok(1,2) by (simp add: dp(3) len)
    then show ?thesis using ts dp by blast
  qed
qed

lemma toString_special:
  "getNumericValue ''NaN'' = NaN" "getNumericValue ''Infinity'' = PInf"
  "getNumericValue ''-Infinity'' = NInf" "getNumericValue ''0'' = Fin 0"
  by code_simp+

text \<open>Reading back what \<open>toString\<close> printed gives the Number.\<close>

lemma toString_roundtrip:
  assumes "isNum v"
  shows "getNumericValue (toString v) = v"
proof (cases v)
  case (Fin q)
  then have num: "isNumber q" using assms by (simp add: isNum_def)
  consider (zero) "q = 0" | (pos) "0 < q" | (neg) "q < 0" by linarith
  then show ?thesis
  proof cases
    case zero
    then show ?thesis using toString_special(4) by (simp add: Fin)
  next
    case pos
    obtain ds n where t: "toStringPos q = render ds n" and d: "list_all isDigit ds" "ds \<noteq> []"
      and r: "round64 (of_int (digitsVal 10 ds) * ipow 10 (n - int (length ds))) = Fin q"
      using toStringPos_parse [OF num pos] by blast
    have "getNumericValue (render ds n) =
            round64 (of_int (digitsVal 10 ds) * ipow 10 (n - int (length ds)))"
      using render_ends [OF d] scanDecimal_render [OF d] by (intro getNumericValue_digits(1))
    then show ?thesis using pos by (simp add: Fin t r)
  next
    case neg
    then have pos: "0 < - q" by simp
    have num': "isNumber (- q)" using num by (simp add: isNumber_neg)
    obtain ds n where t: "toStringPos (- q) = render ds n" and d: "list_all isDigit ds" "ds \<noteq> []"
      and r: "round64 (of_int (digitsVal 10 ds) * ipow 10 (n - int (length ds))) = Fin (- q)"
      using toStringPos_parse [OF num' pos] by blast
    have "getNumericValue (CHR ''-'' # render ds n) =
            round64 (- (of_int (digitsVal 10 ds) * ipow 10 (n - int (length ds))))"
      using render_ends [OF d] scanDecimal_render [OF d] by (intro getNumericValue_digits(2))
    then have "getNumericValue (CHR ''-'' # render ds n) = Fin q"
      by (simp only: round64_neg r jsneg_def) simp
    then show ?thesis using neg by (simp add: Fin t)
  qed
qed (simp_all add: toString_special)

subsection \<open>Six decimal places\<close>

lemma parseFloat_digits:
  assumes "s \<noteq> []" and "isDigit (hd s)" and "scanDecimal s = Some (v, rest)"
  shows "parseFloat s = round64 v" and "parseFloat (CHR ''-'' # s) = round64 (- v)"
proof -
  have w: "\<not> isWhite (hd s)" using assms(2) by (simp add: digit_not_white)
  have m: "\<not> isWhite CHR ''-''" by (simp add: isWhite_def)
  have d1: "dropWhile isWhite s = s" using assms(1) w by (cases s) simp_all
  have d2: "dropWhile isWhite (CHR ''-'' # s) = CHR ''-'' # s" using m by simp
  show "parseFloat s = round64 v"
    by (simp add: parseFloat_def d1 scanSigned_digit(1) [OF assms(1,2)] assms(3))
  show "parseFloat (CHR ''-'' # s) = round64 (- v)"
    by (simp only: parseFloat_def d2 scanSigned_digit(2) [OF assms(1,2)] assms(3)) simp
qed

lemma scanDecimal_fixed:
  assumes "0 \<le> N"
  defines "m \<equiv> padZeros 7 (decimal N)"
  defines "F \<equiv> take (length m - 6) m @ ''.'' @ drop (length m - 6) m"
  shows "scanDecimal F = Some (of_int N / 10 ^ 6, [])" and "F \<noteq> []" and "isDigit (hd F)"
proof -
  have dp: "list_all isDigit (decimal N)" "decimal N \<noteq> []" "digitsVal 10 (decimal N) = N"
    using decimal_props [OF assms(1)] by simp_all
  have md: "list_all isDigit m" using dp(1) by (simp add: m_def padZeros_def digits_zeros)
  have mv: "digitsVal 10 m = N" by (simp add: m_def padZeros_def digitsVal_leading_zeros dp(3))
  have ml: "7 \<le> length m" by (simp add: m_def padZeros_def)
  define ip where "ip = take (length m - 6) m"
  define fp where "fp = drop (length m - 6) m"
  have F: "F = ip @ ''.'' @ fp @ []" by (simp add: F_def ip_def fp_def)
  have di: "list_all isDigit ip" "list_all isDigit fp"
    using md by (auto simp add: ip_def fp_def list_all_iff dest: in_set_takeD in_set_dropD)
  have ine: "ip \<noteq> []" using ml by (simp add: ip_def) (metis length_0_conv not_numeral_le_zero)
  have len: "length fp = 6" using ml by (simp add: fp_def)
  have "scanDecimal F = Some (of_int (digitsVal 10 (ip @ fp)) * ipow 10 (0 - int (length fp)), [])"
    unfolding F using di ine by (intro scanDecimal_point) (simp_all add: scanExponent_Nil)
  moreover have "ip @ fp = m" by (simp add: ip_def fp_def)
  moreover have "ipow 10 (0 - 6) = 1 / 10 ^ 6" by (simp add: ipow_def)
  ultimately show "scanDecimal F = Some (of_int N / 10 ^ 6, [])" by (simp add: len mv)
  show "F \<noteq> []" by (simp add: F)
  have "isDigit (hd ip)" using di(1) ine by (simp add: list_all_iff)
  then show "isDigit (hd F)" using ine by (simp add: F)
qed

lemma parseFloat_toFixed:
  assumes "\<bar>q\<bar> < 10 ^ 21"
  shows "parseFloat (toFixed 6 (Fin q)) =
           (if q < 0 then round64 (- (of_int \<lfloor>\<bar>q\<bar> * 10 ^ 6 + 1 / 2\<rfloor> / 10 ^ 6))
            else round64 (of_int \<lfloor>\<bar>q\<bar> * 10 ^ 6 + 1 / 2\<rfloor> / 10 ^ 6))"
proof -
  define N where "N = \<lfloor>\<bar>q\<bar> * 10 ^ 6 + 1 / 2\<rfloor>"
  have N0: "0 \<le> N" by (simp add: N_def)
  define m where "m = padZeros 7 (decimal N)"
  define F where "F = take (length m - 6) m @ ''.'' @ drop (length m - 6) m"
  have sc: "scanDecimal F = Some (of_int N / 10 ^ 6, [])" "F \<noteq> []" "isDigit (hd F)"
    using scanDecimal_fixed [OF N0] by (simp_all add: F_def m_def)
  have nl: "\<not> 10 ^ 21 \<le> \<bar>q\<bar>" using assms by simp
  have "toFixed 6 (Fin q) = (if q < 0 then ''-'' else []) @ F"
    unfolding toFixed.simps if_not_P [OF nl] Let_def F_def m_def N_def by simp
  then have t: "toFixed 6 (Fin q) = (if q < 0 then CHR ''-'' # F else F)" by simp
  have pf: "parseFloat F = round64 (of_int N / 10 ^ 6)"
    "parseFloat (CHR ''-'' # F) = round64 (- (of_int N / 10 ^ 6))"
    using parseFloat_digits [OF sc(2,3,1)] by blast+
  show ?thesis
    unfolding t N_def [symmetric] using pf by (simp only: if_distrib [of parseFloat] split: if_split)
qed

lemma expo_mono_lower:
  assumes "2 powi e \<le> \<bar>q\<bar>"
  shows "e \<le> expo q"
proof -
  have "(0::rat) < 2 powi e" by simp
  then have "0 < \<bar>q\<bar>" using assms by (rule less_le_trans)
  then have q0: "q \<noteq> 0" by simp
  have "\<bar>q\<bar> < 2 powi (expo q + 1)" using expo_upper [OF q0] .
  then have "(2::rat) powi e < 2 powi (expo q + 1)" using assms by simp
  then have "e < expo q + 1" by (intro powi_less_cancel [of "2::rat"]) simp_all
  then show ?thesis by simp
qed

lemma powi_nonneg_int: "0 \<le> k \<Longrightarrow> (2::rat) powi k = of_int (2 ^ nat k)"
  by (simp add: power_int_def)

lemma number_large_integer:
  assumes "isNumber q" and "2 ^ 52 \<le> \<bar>q\<bar>"
  shows "of_int \<lfloor>q\<rfloor> = q"
proof -
  have q0: "q \<noteq> 0" using assms(2) by auto
  have "(2::rat) powi 52 \<le> \<bar>q\<bar>" using assms(2) by simp
  then have e: "52 \<le> expo q" by (rule expo_mono_lower)
  define n where "n = roundEven (q / ulp q)"
  have "q / ulp q = of_int n" using isNumber_scaled(1) [OF assms(1) q0] by (simp add: n_def)
  then have "q = of_int n * ulp q" using ulp_pos [of q] by (simp add: field_simps)
  moreover have "ulp q = of_int (2 ^ nat (expo q - 52))"
    unfolding ulp_def using e by (intro powi_nonneg_int) simp
  ultimately have "q = of_int (n * 2 ^ nat (expo q - 52))" by (simp only: of_int_mult)
  then obtain z :: int where "q = of_int z" ..
  then show ?thesis by simp
qed

lemma roundEven_nonneg:
  assumes "0 \<le> z"
  shows "0 \<le> roundEven z"
proof -
  have "\<bar>of_int (roundEven z) - z\<bar> \<le> 1 / 2" by (rule roundEven_near)
  then have "(- 1 :: rat) < of_int (roundEven z)" using assms by linarith
  then have "- 1 < roundEven z" by (simp only: of_int_less_iff [symmetric, where ?'a = rat] of_int_minus of_int_1)
  then show ?thesis by simp
qed

lemma round64_nonneg:
  assumes "0 \<le> x" and "round64 x = Fin r"
  shows "0 \<le> r"
proof (cases "x = 0")
  case True
  then show ?thesis using assms(2) by (simp add: round64_zero)
next
  case False
  have "0 \<le> x / ulp x" using assms(1) ulp_pos [of x] by simp
  then have "0 \<le> roundEven (x / ulp x)" by (rule roundEven_nonneg)
  moreover have "r = of_int (roundEven (x / ulp x)) * ulp x" using round64_Fin(2) [OF False assms(2)] .
  ultimately show ?thesis using ulp_pos [of x] by simp
qed

lemma toFixed_stable:
  assumes N0: "0 \<le> N" and r: "round64 (of_int N / 10 ^ 6) = Fin y"
  shows "of_int \<lfloor>y\<rfloor> = y \<or> round64 (of_int \<lfloor>y * 10 ^ 6 + 1 / 2\<rfloor> / 10 ^ 6) = Fin y"
proof (cases "N = 0")
  case True
  then have "y = 0" using r by (simp add: round64_zero)
  then show ?thesis by simp
next
  case False
  define d :: rat where "d = of_int N / 10 ^ 6"
  have Npos: "0 < N" using N0 False by simp
  have dpos: "0 < d" using Npos by (simp add: d_def)
  have d0: "d \<noteq> 0" using dpos by simp
  have rd: "round64 d = Fin y" using r by (simp add: d_def)
  have near: "\<bar>y - d\<bar> \<le> ulp d / 2" using round64_near [OF rd] .
  show ?thesis
  proof (cases "expo d \<le> 32")
    case True
    have "(2::rat) powi (expo d - 52) \<le> 2 powi (- 20)"
      using True by (intro power_int_increasing) simp_all
    moreover have "(2::rat) powi (- 20) = 1 / 2 ^ 20"
    proof -
      have "(2::rat) powi (- 20) = 1 / 2 powi 20" by (rule power_int_minus_divide)
      also have "(2::rat) powi 20 = 2 ^ 20" by simp
      finally show ?thesis .
    qed
    ultimately have "ulp d \<le> 1 / 2 ^ 20" by (simp add: ulp_def)
    then have b: "\<bar>y - d\<bar> \<le> 1 / 2 ^ 21" using near by simp
    have dN: "d * 10 ^ 6 = of_int N" by (simp add: d_def)
    have "\<bar>y - d\<bar> * 10 ^ 6 \<le> 1 / 2 ^ 21 * 10 ^ 6" using b by (intro mult_right_mono) simp_all
    moreover have "\<bar>(y - d) * 10 ^ 6\<bar> = \<bar>y - d\<bar> * 10 ^ 6" by (simp only: abs_mult) simp
    moreover have "(y - d) * 10 ^ 6 = y * 10 ^ 6 - d * 10 ^ 6" by (rule left_diff_distrib)
    moreover have "(1 / 2 ^ 21 * 10 ^ 6 :: rat) < 1 / 2" by simp
    ultimately have "\<bar>y * 10 ^ 6 - d * 10 ^ 6\<bar> < 1 / 2" by linarith
    then have "\<bar>y * 10 ^ 6 - of_int N\<bar> < 1 / 2" by (simp only: dN)
    then have "\<lfloor>y * 10 ^ 6 + 1 / 2\<rfloor> = N" by (intro floor_unique) linarith+
    then show ?thesis using r by simp
  next
    case False
    then have e33: "33 \<le> expo d" by simp
    then have en: "- 1022 < expo d" by simp
    define n where "n = roundEven (d / ulp d)"
    have yn: "y = of_int n * ulp d" using round64_Fin(2) [OF d0 rd] by (simp add: n_def)
    have "2 ^ 52 \<le> \<bar>d / ulp d\<bar>" using scaled_lower [OF d0 en] .
    then have "of_int (2 ^ 52) \<le> \<bar>d / ulp d\<bar>" by simp
    then have "2 ^ 52 \<le> \<bar>n\<bar>"
      unfolding n_def by (intro abs_int_lower [OF roundEven_near])
    moreover have "0 \<le> n" unfolding n_def using dpos ulp_pos [of d] by (intro roundEven_nonneg) simp
    ultimately have n52: "2 ^ 52 \<le> n" by simp
    then have "(of_int (2 ^ 52) :: rat) \<le> of_int n" by (simp only: of_int_le_iff)
    then have "(2 ^ 52 :: rat) \<le> of_int n" by simp
    then have "2 ^ 52 * ulp d \<le> of_int n * ulp d"
      using ulp_pos [of d] by (intro mult_right_mono) simp_all
    moreover have "(2::rat) powi expo d = 2 ^ 52 * ulp d" unfolding ulp_def by (rule powi_shift(2))
    ultimately have ylow: "2 powi expo d \<le> y" by (simp only: yn)
    have "(2::rat) powi 33 \<le> 2 powi expo d" using e33 by (intro power_int_increasing) simp_all
    then have y33: "2 powi 33 \<le> y" using ylow by simp
    have p33: "(2::rat) powi 33 = 2 ^ 33" by (simp add: power_int_def)
    have ypos: "0 < y" using y33 unfolding p33 by simp
    show ?thesis
    proof (cases "of_int \<lfloor>y\<rfloor> = y")
      case True
      then show ?thesis by simp
    next
      case ni: False
      have num: "isNumber y" using round64_number [OF rd] .
      have ey: "33 \<le> expo y" using y33 ypos by (intro expo_mono_lower) simp
      have "(2::rat) powi (- 19) \<le> 2 powi (expo y - 52)"
        using ey by (intro power_int_increasing) simp_all
      moreover have "(2::rat) powi (- 19) = 1 / 2 ^ 19"
      proof -
        have "(2::rat) powi (- 19) = 1 / 2 powi 19" by (rule power_int_minus_divide)
        also have "(2::rat) powi 19 = 2 ^ 19" by simp
        finally show ?thesis .
      qed
      ultimately have uy: "1 / 2 ^ 19 \<le> ulp y" by (simp add: ulp_def)
      define M where "M = \<lfloor>y * 10 ^ 6 + 1 / 2\<rfloor>"
      define x :: rat where "x = of_int M / 10 ^ 6"
      have M1: "of_int M \<le> y * 10 ^ 6 + 1 / 2" unfolding M_def by linarith
      have M2: "y * 10 ^ 6 + 1 / 2 < of_int M + 1" unfolding M_def by linarith
      have x1: "x \<le> y + 1 / (2 * 10 ^ 6)" using M1 by (simp add: x_def field_simps)
      have x2: "y - 1 / (2 * 10 ^ 6) < x" using M2 by (simp add: x_def field_simps)
      have y1: "1 \<le> y" using y33 unfolding p33 by simp
      have xpos: "0 < x" using x2 y1 by simp
      have uy': "(1 / 524288 :: rat) \<le> ulp y" using uy by simp
      have x1': "x - y \<le> 1 / 2000000" using x1 by simp
      have x2': "- (1 / 2000000) < x - y" using x2 by simp
      have close: "\<bar>x - y\<bar> < ulp y / 2" using x1' x2' uy' by linarith
      have "round64 x = Fin y"
      proof (rule round64_attract [OF num ypos xpos close])
        assume "y = 2 powi expo y"
        moreover have "(2::rat) powi expo y = of_int (2 ^ nat (expo y))"
          using ey by (intro powi_nonneg_int) simp
        ultimately obtain z :: int where "y = of_int z" by (simp only:)
        then have "of_int \<lfloor>y\<rfloor> = y" by simp
        then show "y - x < ulp y / 4" using ni by simp
      qed
      then show ?thesis by (simp add: x_def M_def)
    qed
  qed
qed

lemma integer_neg:
  fixes w :: rat
  assumes "of_int \<lfloor>w\<rfloor> = w"
  shows "of_int \<lfloor>- w\<rfloor> = - w"
proof -
  obtain z :: int where "w = of_int z" using assms by metis
  then have "- w = of_int (- z)" by simp
  then show ?thesis by (simp only: floor_of_int)
qed

lemma fraction_small:
  assumes "isNumber q" and "of_int \<lfloor>q\<rfloor> \<noteq> q"
  shows "\<bar>q\<bar> < 2 ^ 52" and "\<bar>q\<bar> < 10 ^ 21"
proof -
  show a: "\<bar>q\<bar> < 2 ^ 52" using number_large_integer [OF assms(1)] assms(2) by fastforce
  have "(2 ^ 52 :: rat) < 10 ^ 21" by simp
  with a show "\<bar>q\<bar> < 10 ^ 21" by (rule less_trans)
qed

lemma jsneg_Fin: "jsneg x = Fin y \<Longrightarrow> x = Fin (- y)"
  by (cases x) (simp_all add: jsneg_def)

lemma parse_fixed_number:
  assumes small: "\<bar>q\<bar> < 10 ^ 21" and p: "parseFloat (toFixed 6 (Fin q)) = Fin y"
  shows "isNumber y" and "of_int \<lfloor>y\<rfloor> = y \<or> parseFloat (toFixed 6 (Fin y)) = Fin y"
proof -
  define N where "N = \<lfloor>\<bar>q\<bar> * 10 ^ 6 + 1 / 2\<rfloor>"
  have N0: "0 \<le> N" by (simp add: N_def)
  have d0: "(0::rat) \<le> of_int N / 10 ^ 6" using N0 by simp
  have pf: "Fin y = (if q < 0 then round64 (- (of_int N / 10 ^ 6)) else round64 (of_int N / 10 ^ 6))"
    unfolding N_def by (rule trans [OF p [symmetric] parseFloat_toFixed [OF small]])
  show num: "isNumber y"
  proof (cases "q < 0")
    case True
    then have "round64 (- (of_int N / 10 ^ 6)) = Fin y" using pf by simp
    then show ?thesis by (rule round64_number)
  next
    case False
    then have "round64 (of_int N / 10 ^ 6) = Fin y" using pf by simp
    then show ?thesis by (rule round64_number)
  qed
  show "of_int \<lfloor>y\<rfloor> = y \<or> parseFloat (toFixed 6 (Fin y)) = Fin y"
  proof (cases "of_int \<lfloor>y\<rfloor> = y")
    case True
    then show ?thesis by simp
  next
    case ni: False
    have ys: "\<bar>y\<bar> < 10 ^ 21" using fraction_small(2) [OF num ni] .
    have y0: "y \<noteq> 0" using ni by auto
    show ?thesis
    proof (cases "q < 0")
      case True
      then have "round64 (- (of_int N / 10 ^ 6)) = Fin y" using pf by simp
      then have "jsneg (round64 (of_int N / 10 ^ 6)) = Fin y" by (simp only: round64_neg)
      then have rw: "round64 (of_int N / 10 ^ 6) = Fin (- y)" by (rule jsneg_Fin)
      have w0: "0 \<le> - y" using round64_nonneg [OF d0 rw] .
      have wni: "of_int \<lfloor>- y\<rfloor> \<noteq> - y" using integer_neg [of "- y"] ni by auto
      have stab: "round64 (of_int \<lfloor>- y * 10 ^ 6 + 1 / 2\<rfloor> / 10 ^ 6) = Fin (- y)"
        using toFixed_stable [OF N0 rw] wni by simp
      have yneg: "y < 0" using w0 y0 by simp
      then have ay: "\<bar>y\<bar> = - y" by simp
      have "parseFloat (toFixed 6 (Fin y)) =
              round64 (- (of_int \<lfloor>\<bar>y\<bar> * 10 ^ 6 + 1 / 2\<rfloor> / 10 ^ 6))"
        using parseFloat_toFixed [OF ys] yneg by simp
      also have "\<dots> = jsneg (round64 (of_int \<lfloor>- y * 10 ^ 6 + 1 / 2\<rfloor> / 10 ^ 6))"
        by (simp only: round64_neg ay)
      also have "\<dots> = Fin y" by (simp only: stab) (simp add: jsneg_def)
      finally show ?thesis by simp
    next
      case False
      then have rw: "round64 (of_int N / 10 ^ 6) = Fin y" using pf by simp
      have w0: "0 \<le> y" using round64_nonneg [OF d0 rw] .
      have stab: "round64 (of_int \<lfloor>y * 10 ^ 6 + 1 / 2\<rfloor> / 10 ^ 6) = Fin y"
        using toFixed_stable [OF N0 rw] ni by simp
      have ay: "\<bar>y\<bar> = y" using w0 by simp
      have "parseFloat (toFixed 6 (Fin y)) =
              round64 (of_int \<lfloor>\<bar>y\<bar> * 10 ^ 6 + 1 / 2\<rfloor> / 10 ^ 6)"
        using parseFloat_toFixed [OF ys] w0 by simp
      also have "\<dots> = Fin y" by (simp only: ay stab)
      finally show ?thesis by simp
    qed
  qed
qed

lemma formatResult_special:
  "formatResult NaN = toString NaN" "formatResult PInf = toString PInf"
  "formatResult NInf = toString NInf"
  by code_simp+

lemma formatResult_stable:
  assumes "isNum p" and "\<And>y. p = Fin y \<Longrightarrow> of_int \<lfloor>y\<rfloor> = y \<or> parseFloat (toFixed 6 (Fin y)) = Fin y"
  shows "formatResult (getNumericValue (toString p)) = toString p"
proof -
  have rt: "getNumericValue (toString p) = p" using toString_roundtrip [OF assms(1)] .
  have "formatResult p = toString p"
  proof (cases p)
    case (Fin y)
    then show ?thesis using assms(2) [OF Fin] by (auto simp add: formatResult_def)
  qed (simp_all add: formatResult_special)
  then show ?thesis by (simp only: rt)
qed

lemma formatResult_idem:
  assumes "isNum v"
  shows "formatResult (getNumericValue (formatResult v)) = formatResult v"
proof (cases "isInteger v")
  case True
  then obtain q where v: "v = Fin q" and i: "of_int \<lfloor>q\<rfloor> = q" by (cases v) simp_all
  have f: "formatResult v = toString v" using True by (simp add: formatResult_def)
  show ?thesis unfolding f using assms i by (intro formatResult_stable) (simp_all add: v)
next
  case False
  define p where "p = parseFloat (toFixed 6 v)"
  have f: "formatResult v = toString p" using False by (simp add: formatResult_def p_def)
  have "isNum p \<and> (\<forall>y. p = Fin y \<longrightarrow> of_int \<lfloor>y\<rfloor> = y \<or> parseFloat (toFixed 6 (Fin y)) = Fin y)"
  proof (cases v)
    case NaN
    have "p = NaN" unfolding p_def NaN by code_simp
    then show ?thesis by (simp add: isNum_def)
  next
    case PInf
    have "p = PInf" unfolding p_def PInf by code_simp
    then show ?thesis by (simp add: isNum_def)
  next
    case NInf
    have "p = NInf" unfolding p_def NInf by code_simp
    then show ?thesis by (simp add: isNum_def)
  next
    case (Fin q)
    have num: "isNumber q" using assms by (simp add: isNum_def Fin)
    have ni: "of_int \<lfloor>q\<rfloor> \<noteq> q" using False by (simp add: Fin)
    have small: "\<bar>q\<bar> < 10 ^ 21" using fraction_small(2) [OF num ni] .
    show ?thesis
    proof (intro conjI allI impI)
      show "isNum p"
      proof (cases p)
        case (Fin y)
        then have "parseFloat (toFixed 6 (Fin q)) = Fin y" using \<open>v = Fin q\<close> by (simp add: p_def)
        then have "isNumber y" using parse_fixed_number(1) [OF small] by blast
        then show ?thesis by (simp add: isNum_def Fin)
      qed (simp_all add: isNum_def)
    next
      fix y assume "p = Fin y"
      then have "parseFloat (toFixed 6 (Fin q)) = Fin y" using Fin by (simp add: p_def)
      then show "of_int \<lfloor>y\<rfloor> = y \<or> parseFloat (toFixed 6 (Fin y)) = Fin y"
        using parse_fixed_number(2) [OF small] by blast
    qed
  qed
  then show ?thesis unfolding f by (intro formatResult_stable) blast+
qed

subsection \<open>Integers\<close>

lemma shortest_stops:
  assumes "round64 (of_int \<lfloor>q / ipow 10 (n - K)\<rfloor> * ipow 10 (n - K)) = Fin q
           \<or> round64 (of_int (\<lfloor>q / ipow 10 (n - K)\<rfloor> + 1) * ipow 10 (n - K)) = Fin q"
  shows "k \<le> K \<Longrightarrow> shortest q n k fuel = (s, k') \<Longrightarrow> k' \<le> K"
proof (induction fuel arbitrary: k)
  case 0
  then show ?case by simp
next
  case (Suc fuel)
  define sc where "sc = ipow 10 (n - k)"
  define lo where "lo = \<lfloor>q / sc\<rfloor>"
  define okLo where "okLo = (round64 (of_int lo * sc) = Fin q)"
  define okHi where "okHi = (round64 (of_int (lo + 1) * sc) = Fin q)"
  have unf: "shortest q n k (Suc fuel) =
      (if okLo \<and> okHi then (nearer q sc lo, k)
       else if okLo then (lo, k)
       else if okHi then (lo + 1, k)
       else shortest q n (k + 1) fuel)"
    by (simp add: sc_def lo_def okLo_def okHi_def Let_def)
  show ?case
  proof (cases "okLo \<or> okHi")
    case True
    then have "k' = k" using Suc.prems(2) unf by (auto split: if_splits)
    then show ?thesis using Suc.prems(1) by simp
  next
    case False
    then have "k \<noteq> K" using assms by (auto simp add: okLo_def okHi_def lo_def sc_def)
    then have "k + 1 \<le> K" using Suc.prems(1) by simp
    moreover have "shortest q n (k + 1) fuel = (s, k')" using False Suc.prems(2) unf by simp
    ultimately show ?thesis by (rule Suc.IH)
  qed
qed

lemma shortest_level: "shortest q n k fuel = (s, k') \<Longrightarrow> k' \<le> k + int fuel"
proof (induction fuel arbitrary: k)
  case 0
  then show ?case by simp
next
  case (Suc fuel)
  define sc where "sc = ipow 10 (n - k)"
  define lo where "lo = \<lfloor>q / sc\<rfloor>"
  define okLo where "okLo = (round64 (of_int lo * sc) = Fin q)"
  define okHi where "okHi = (round64 (of_int (lo + 1) * sc) = Fin q)"
  have unf: "shortest q n k (Suc fuel) =
      (if okLo \<and> okHi then (nearer q sc lo, k)
       else if okLo then (lo, k)
       else if okHi then (lo + 1, k)
       else shortest q n (k + 1) fuel)"
    by (simp add: sc_def lo_def okLo_def okHi_def Let_def)
  show ?case
  proof (cases "okLo \<or> okHi")
    case True
    then have "k' = k" using Suc.prems unf by (auto split: if_splits)
    then show ?thesis by simp
  next
    case False
    then have "shortest q n (k + 1) fuel = (s, k')" using Suc.prems unf by simp
    then have "k' \<le> k + 1 + int fuel" by (rule Suc.IH)
    then show ?thesis by simp
  qed
qed

lemma render_digits:
  assumes "list_all isDigit ds" and "int (length ds) \<le> n" and "n \<le> 21"
  shows "render ds n = ds @ replicate (nat (n - int (length ds))) CHR ''0''"
    and "list_all isDigit (render ds n)"
proof -
  have "0 \<le> int (length ds)" by simp
  then have "- 5 \<le> n" using assms(2) by linarith
  then show e: "render ds n = ds @ replicate (nat (n - int (length ds))) CHR ''0''"
    using assms(2,3) by (simp add: render_def Let_def)
  show "list_all isDigit (render ds n)" unfolding e using assms(1) by (simp add: digits_zeros)
qed

lemma ten21: "round64 (10 ^ 21) = Fin (10 ^ 21)"
  by code_simp

lemma integer_digits:
  assumes num: "isNumber q" and pos: "0 < q" and int: "of_int \<lfloor>q\<rfloor> = q" and small: "q < 10 ^ 21"
  shows "list_all isDigit (toStringPos q)"
proof -
  define n where "n = magnitude 10 q"
  have mb: "10 powi (n - 1) \<le> q" "q < 10 powi n"
    using magnitude_bounds [of 10 q] pos by (simp_all add: n_def)
  have q1: "1 \<le> q"
  proof -
    have "0 < \<lfloor>q\<rfloor>" using pos int by (metis of_int_0_less_iff)
    then have "1 \<le> \<lfloor>q\<rfloor>" by simp
    then have "(of_int 1 :: rat) \<le> of_int \<lfloor>q\<rfloor>" by (simp only: of_int_le_iff)
    then show ?thesis using int by simp
  qed
  have "(10::rat) powi 0 < 10 powi n" using q1 mb(2) by simp
  then have "0 < n" by (intro powi_less_cancel [of "10::rat"]) simp_all
  then have n1: "1 \<le> n" by simp
  have "(10::rat) powi (n - 1) < 10 powi 21" using mb(1) small by simp
  then have "n - 1 < 21" by (intro powi_less_cancel [of "10::rat"]) simp_all
  then have n21: "n \<le> 21" by simp
  obtain s k where sh: "shortest q n 1 16 = (s, k)" by (cases "shortest q n 1 16")
  have ok: "round64 (of_int s * ipow 10 (n - k)) = Fin q" "1 \<le> k"
    "10 ^ (nat k - 1) \<le> s" "s \<le> 10 ^ nat k"
    using shortest_ok [OF num pos, of 1 16 s k] sh by (simp_all add: n_def)
  have kn: "k \<le> n"
  proof (cases "n \<le> 16")
    case True
    have one: "ipow 10 (n - n) = 1" by (simp add: ipow_def)
    have "round64 q = Fin q" using num by (simp add: isNumber_def)
    then have "round64 (of_int \<lfloor>q\<rfloor>) = Fin q" by (simp only: int)
    then have "round64 (of_int \<lfloor>q / ipow 10 (n - n)\<rfloor> * ipow 10 (n - n)) = Fin q"
      by (simp only: one div_by_1 mult_1_right)
    then have "round64 (of_int \<lfloor>q / ipow 10 (n - n)\<rfloor> * ipow 10 (n - n)) = Fin q
               \<or> round64 (of_int (\<lfloor>q / ipow 10 (n - n)\<rfloor> + 1) * ipow 10 (n - n)) = Fin q"
      by (rule disjI1)
    then show ?thesis using n1 sh by (rule shortest_stops)
  next
    case False
    have "k \<le> 1 + int 16" using sh by (rule shortest_level)
    then show ?thesis using False by simp
  qed
  have s0: "0 \<le> s" using ok(3) order_trans [OF _ ok(3), of 0] by simp
  have nk: "nat k = Suc (nat k - 1)" using ok(2) by simp
  show ?thesis
  proof (cases "s = 10 ^ nat k")
    case True
    define t :: int where "t = 10 ^ (nat k - 1)"
    have st: "s = 10 * t" unfolding True t_def by (subst nk) simp
    have sdiv: "s div 10 = t" unfolding st by simp
    have ts: "toStringPos q = render (decimal t) (n + 1)"
      using sh True sdiv by (simp add: toStringPos_def n_def [symmetric])
    have t0: "0 \<le> t" by (simp add: t_def)
    have "t < 10 ^ nat k" unfolding t_def by (subst (2) nk) simp
    then have len: "length (decimal t) = nat k"
      using ok(2) by (intro decimal_length) (simp_all add: t_def)
    have "n \<noteq> 21"
    proof
      assume n: "n = 21"
      have "(of_int s :: rat) * ipow 10 (n - k) = 10 powi k * 10 powi (21 - k)"
        using ok(2) by (simp add: True n ipow10_powi power_int_def)
      also have "\<dots> = 10 powi (k + (21 - k))" by (rule power_int_add [symmetric]) simp
      also have "\<dots> = 10 ^ 21" by simp
      finally have "round64 (10 ^ 21) = Fin q" using ok(1) by simp
      then have "q = 10 ^ 21" unfolding ten21 by simp
      then show False using small by simp
    qed
    then have "n + 1 \<le> 21" using n21 by simp
    moreover have "int (length (decimal t)) \<le> n + 1" using kn ok(2) by (simp add: len)
    ultimately have "list_all isDigit (render (decimal t) (n + 1))"
      using decimal_props [OF t0] by (intro render_digits(2)) simp_all
    then show ?thesis by (simp only: ts)
  next
    case False
    then have lt: "s < 10 ^ nat k" using ok(4) by simp
    have ts: "toStringPos q = render (decimal s) n"
      using sh False by (simp add: toStringPos_def n_def [symmetric])
    have len: "length (decimal s) = nat k" using ok(2,3) lt by (intro decimal_length) simp_all
    have "int (length (decimal s)) \<le> n" using kn ok(2) by (simp add: len)
    then have "list_all isDigit (render (decimal s) n)"
      using decimal_props [OF s0] n21 by (intro render_digits(2)) simp_all
    then show ?thesis by (simp only: ts)
  qed
qed

lemma integer_plain:
  assumes num: "isNumber q" and int: "of_int \<lfloor>q\<rfloor> = q" and small: "\<bar>q\<bar> < 10 ^ 21"
  shows "\<exists>ds. list_all isDigit ds \<and> ds \<noteq> [] \<and> toString (Fin q) = (if q < 0 then ''-'' @ ds else ds)"
proof -
  consider (zero) "q = 0" | (pos) "0 < q" | (neg) "q < 0" by linarith
  then show ?thesis
  proof cases
    case zero
    have "list_all isDigit ''0''" by (simp add: isDigit_def)
    then show ?thesis using zero by (intro exI [of _ "''0''"]) simp
  next
    case pos
    have "list_all isDigit (toStringPos q)" using num pos int small by (intro integer_digits) simp_all
    moreover have "toStringPos q \<noteq> []"
      using toStringPos_parse [OF num pos] render_ends(1) by metis
    ultimately show ?thesis using pos by (intro exI [of _ "toStringPos q"]) simp
  next
    case neg
    have n: "isNumber (- q)" using num by (simp add: isNumber_neg)
    have p: "0 < - q" using neg by simp
    have "list_all isDigit (toStringPos (- q))"
      using n p integer_neg [OF int] small neg by (intro integer_digits) simp_all
    moreover have "toStringPos (- q) \<noteq> []"
      using toStringPos_parse [OF n p] render_ends(1) by metis
    ultimately show ?thesis using neg by (intro exI [of _ "toStringPos (- q)"]) simp
  qed
qed

subsection \<open>The formatted result\<close>

lemma plainIntegerI:
  assumes "list_all isDigit ds" and "ds \<noteq> []"
  shows "plainInteger ds" and "plainInteger (''-'' @ ds)"
proof -
  obtain c cs where ds: "ds = c # cs" using assms(2) by (cases ds) simp_all
  have "isDigit c" using assms(1) by (simp add: ds)
  then have "c \<noteq> CHR ''-''" using digit_not_sign by blast
  then show "plainInteger ds" using assms(1) by (simp add: plainInteger_def ds)
  show "plainInteger (''-'' @ ds)" using assms by (simp add: plainInteger_def)
qed

lemma formatResult_fraction:
  assumes num: "isNumber q" and ni: "of_int \<lfloor>q\<rfloor> \<noteq> q"
  shows "formatResult (Fin q) = toString (round64 (sixPlaces q))"
    and "getNumericValue (formatResult (Fin q)) = round64 (sixPlaces q)"
proof -
  have small: "\<bar>q\<bar> < 10 ^ 21" using fraction_small(2) [OF num ni] .
  have p: "parseFloat (toFixed 6 (Fin q)) = round64 (sixPlaces q)"
    unfolding sixPlaces_def using parseFloat_toFixed [OF small] by (simp only: if_distrib [of round64])
  show f: "formatResult (Fin q) = toString (round64 (sixPlaces q))"
    using ni by (simp add: formatResult_def p del: toFixed.simps)
  have "isNum (round64 (sixPlaces q))"
  proof (cases "round64 (sixPlaces q)")
    case (Fin y)
    then show ?thesis using round64_number [OF Fin] by (simp add: isNum_def)
  qed (simp_all add: isNum_def)
  then show "getNumericValue (formatResult (Fin q)) = round64 (sixPlaces q)"
    unfolding f by (rule toString_roundtrip)
qed

lemma formatResult_integer:
  assumes num: "isNumber q" and int: "of_int \<lfloor>q\<rfloor> = q" and small: "\<bar>q\<bar> < 10 ^ 21"
  shows "plainInteger (formatResult (Fin q))"
proof -
  obtain ds where d: "list_all isDigit ds" "ds \<noteq> []"
    and t: "toString (Fin q) = (if q < 0 then ''-'' @ ds else ds)"
    using integer_plain [OF num int small] by blast
  have "formatResult (Fin q) = toString (Fin q)" using int by (simp add: formatResult_def)
  then show ?thesis using plainIntegerI [OF d] by (simp only: t split: if_split) simp
qed

subsection \<open>The six-place decimal, exactly\<close>

lemma expo_le:
  assumes "z \<noteq> 0" and "- 1022 \<le> e" and "\<bar>z\<bar> < 2 powi (e + 1)"
  shows "expo z \<le> e"
proof (rule ccontr)
  assume "\<not> expo z \<le> e"
  then have gt: "e < expo z" by simp
  then have "- 1022 < expo z" using assms(2) by simp
  then have "2 powi expo z \<le> \<bar>z\<bar>" using assms(1) by (intro expo_lower)
  then have "(2::rat) powi expo z < 2 powi (e + 1)" using assms(3) by simp
  then have "expo z < e + 1" by (intro powi_less_cancel [of "2::rat"]) simp_all
  then show False using gt by simp
qed

lemma near_small:
  assumes "z \<noteq> 0" and "\<bar>z\<bar> < 2 ^ 30" and "round64 z = Fin y"
  shows "\<bar>y - z\<bar> \<le> 1 / 2 ^ 24"
proof -
  have "(2::rat) powi (29 + 1) = 2 ^ 30" by simp
  then have "\<bar>z\<bar> < 2 powi (29 + 1)" using assms(2) by (simp only:)
  then have "expo z \<le> 29" using assms(1) by (intro expo_le) simp_all
  then have "(2::rat) powi (expo z - 52) \<le> 2 powi (- 23)"
    by (intro power_int_increasing) simp_all
  moreover have "(2::rat) powi (- 23) = 1 / 2 ^ 23"
  proof -
    have "(2::rat) powi (- 23) = 1 / 2 powi 23" by (rule power_int_minus_divide)
    also have "(2::rat) powi 23 = 2 ^ 23" by simp
    finally show ?thesis .
  qed
  ultimately have "ulp z \<le> 1 / 2 ^ 23" by (simp add: ulp_def)
  moreover have "\<bar>y - z\<bar> \<le> ulp z / 2" using assms(3) by (rule round64_near)
  ultimately show ?thesis by simp
qed

lemma toStringPos_value:
  assumes num: "isNumber q" and pos: "0 < q"
    and sh: "shortest q (magnitude 10 q) 1 16 = (s, k)"
  shows "\<exists>ds n. toStringPos q = render ds n \<and> list_all isDigit ds \<and> ds \<noteq> []
           \<and> of_int (digitsVal 10 ds) * ipow 10 (n - int (length ds))
               = of_int s * ipow 10 (magnitude 10 q - k)
           \<and> (s mod 10 \<noteq> 0 \<or> k = 1 \<longrightarrow> last ds \<noteq> CHR ''0'')
           \<and> (n = magnitude 10 q \<or> n = magnitude 10 q + 1 \<and> s = 10 ^ nat k)"
proof -
  define n where "n = magnitude 10 q"
  have sh': "shortest q n 1 16 = (s, k)" using sh by (simp add: n_def)
  have ok: "round64 (of_int s * ipow 10 (n - k)) = Fin q" "1 \<le> k"
    "10 ^ (nat k - 1) \<le> s" "s \<le> 10 ^ nat k"
    using shortest_ok [OF num pos, of 1 16 s k] sh by (simp_all add: n_def)
  have nk: "nat k = Suc (nat k - 1)" using ok(2) by simp
  have s0: "0 \<le> s" using ok(3) order_trans [OF _ ok(3), of 0] by simp
  have s1: "1 \<le> s" using ok(3) order_trans [OF _ ok(3), of 1] by simp
  show ?thesis
  proof (cases "s = 10 ^ nat k")
    case True
    define t :: int where "t = 10 ^ (nat k - 1)"
    have st: "s = 10 * t" unfolding True t_def by (subst nk) simp
    have sdiv: "s div 10 = t" unfolding st by simp
    have ts: "toStringPos q = render (decimal t) (n + 1)"
      using sh' True sdiv by (simp add: toStringPos_def n_def [symmetric])
    have t0: "0 \<le> t" by (simp add: t_def)
    have dp: "list_all isDigit (decimal t)" "decimal t \<noteq> []" "digitsVal 10 (decimal t) = t"
      using decimal_props [OF t0] by simp_all
    have "t < 10 ^ nat k" unfolding t_def by (subst (2) nk) simp
    then have len: "length (decimal t) = nat k"
      using ok(2) by (intro decimal_length) (simp_all add: t_def)
    have "ipow 10 (n + 1 - k) = 10 powi (n - k + 1)" by (simp add: ipow10_powi algebra_simps)
    also have "\<dots> = 10 powi (n - k) * 10" by (rule power_int_add_1) simp
    finally have p: "ipow 10 (n + 1 - k) = ipow 10 (n - k) * 10" by (simp add: ipow10_powi)
    have "(of_int s :: rat) = of_int t * 10" by (simp add: st)
    then have "of_int t * ipow 10 (n + 1 - k) = of_int s * ipow 10 (n - k)" by (simp add: p)
    then have v: "of_int (digitsVal 10 (decimal t)) * ipow 10 (n + 1 - int (length (decimal t)))
                 = of_int s * ipow 10 (n - k)"
      using ok(2) by (simp add: dp(3) len)
    have z: "s mod 10 \<noteq> 0 \<or> k = 1 \<longrightarrow> last (decimal t) \<noteq> CHR ''0''"
    proof
      assume "s mod 10 \<noteq> 0 \<or> k = 1"
      then have "k = 1" by (simp add: st)
      then have "t = 1" by (simp add: t_def)
      then have "last (decimal t) = digitChar 1" by (simp add: decimal_small)
      moreover have "digitVal (digitChar 1) = 1" by (rule digitChar_props(2)) simp_all
      moreover have "digitVal CHR ''0'' = 0" by (simp add: digitVal_def)
      ultimately show "last (decimal t) \<noteq> CHR ''0''" by (metis zero_neq_one)
    qed
    show ?thesis
    proof (intro exI conjI)
      show "toStringPos q = render (decimal t) (magnitude 10 q + 1)" using ts by (simp only: n_def)
      show "list_all isDigit (decimal t)" by (rule dp(1))
      show "decimal t \<noteq> []" by (rule dp(2))
      show "of_int (digitsVal 10 (decimal t))
              * ipow 10 (magnitude 10 q + 1 - int (length (decimal t)))
            = of_int s * ipow 10 (magnitude 10 q - k)" using v by (simp only: n_def)
      show "s mod 10 \<noteq> 0 \<or> k = 1 \<longrightarrow> last (decimal t) \<noteq> CHR ''0''" by (rule z)
      show "magnitude 10 q + 1 = magnitude 10 q
            \<or> magnitude 10 q + 1 = magnitude 10 q + 1 \<and> s = 10 ^ nat k" using True by simp
    qed
  next
    case False
    then have lt: "s < 10 ^ nat k" using ok(4) by simp
    have ts: "toStringPos q = render (decimal s) n"
      using sh' False by (simp add: toStringPos_def n_def [symmetric])
    have dp: "list_all isDigit (decimal s)" "decimal s \<noteq> []" "digitsVal 10 (decimal s) = s"
      using decimal_props [OF s0] by simp_all
    have len: "length (decimal s) = nat k" using ok(2,3) lt by (intro decimal_length) simp_all
    have v: "of_int (digitsVal 10 (decimal s)) * ipow 10 (n - int (length (decimal s)))
               = of_int s * ipow 10 (n - k)"
      using ok(2) by (simp add: dp(3) len)
    have z: "s mod 10 \<noteq> 0 \<or> k = 1 \<longrightarrow> last (decimal s) \<noteq> CHR ''0''"
    proof
      assume a: "s mod 10 \<noteq> 0 \<or> k = 1"
      have m: "s mod 10 \<noteq> 0"
      proof (cases "k = 1")
        case True
        then have "s < 10" using lt by simp
        then show ?thesis using s1 by simp
      next
        case False
        then show ?thesis using a by simp
      qed
      have r: "0 \<le> s mod 10" "s mod 10 \<le> 9" by simp_all
      have "last (decimal s) = digitChar (s mod 10)"
      proof (cases "s < 10")
        case True
        then show ?thesis using s0 by (simp add: decimal_small)
      next
        case False
        then show ?thesis by (simp add: decimal_step)
      qed
      moreover have "digitVal (digitChar (s mod 10)) = s mod 10" using r by (rule digitChar_props(2))
      moreover have "digitVal CHR ''0'' = 0" by (simp add: digitVal_def)
      ultimately show "last (decimal s) \<noteq> CHR ''0''" using m by metis
    qed
    show ?thesis
    proof (intro exI conjI)
      show "toStringPos q = render (decimal s) (magnitude 10 q)" using ts by (simp only: n_def)
      show "list_all isDigit (decimal s)" by (rule dp(1))
      show "decimal s \<noteq> []" by (rule dp(2))
      show "of_int (digitsVal 10 (decimal s))
              * ipow 10 (magnitude 10 q - int (length (decimal s)))
            = of_int s * ipow 10 (magnitude 10 q - k)" using v by (simp only: n_def)
      show "s mod 10 \<noteq> 0 \<or> k = 1 \<longrightarrow> last (decimal s) \<noteq> CHR ''0''" by (rule z)
      show "magnitude 10 q = magnitude 10 q
            \<or> magnitude 10 q = magnitude 10 q + 1 \<and> s = 10 ^ nat k" by simp
    qed
  qed
qed

lemma powi10_shift: "(10::rat) powi (a - b) * 10 powi b = 10 powi a"
proof -
  have "(10::rat) powi (a - b) * 10 powi b = 10 powi (a - b + b)"
    by (rule power_int_add [symmetric]) simp
  then show ?thesis by simp
qed

lemma powi10_neg6: "(10::rat) powi (- 6) = 1 / 10 ^ 6"
proof -
  have "(10::rat) powi (- 6) = 1 / 10 powi 6" by (rule power_int_minus_divide)
  also have "(10::rat) powi 6 = 10 ^ 6" by simp
  finally show ?thesis .
qed

lemma powi10_neg5: "(10::rat) powi (- 5) = 1 / 10 ^ 5"
proof -
  have "(10::rat) powi (- 5) = 1 / 10 powi 5" by (rule power_int_minus_divide)
  also have "(10::rat) powi 5 = 10 ^ 5" by simp
  finally show ?thesis .
qed

lemma level_ok:
  fixes y sc :: rat
  assumes sc: "0 < sc" and r: "round64 (of_int m * sc) = Fin y"
    and close: "\<bar>of_int m * sc - y\<bar> < sc"
  shows "round64 (of_int \<lfloor>y / sc\<rfloor> * sc) = Fin y
         \<or> round64 (of_int (\<lfloor>y / sc\<rfloor> + 1) * sc) = Fin y"
proof (cases "of_int m * sc \<le> y")
  case True
  have "of_int m \<le> y / sc" using True sc by (simp add: field_simps)
  moreover have "y < (of_int m + 1) * sc" using close True by (simp add: algebra_simps abs_less_iff)
  then have "y / sc < of_int m + 1" using sc by (simp add: field_simps)
  ultimately have "\<lfloor>y / sc\<rfloor> = m" by (intro floor_unique) simp_all
  then show ?thesis using r by simp
next
  case False
  then have lt: "y < of_int m * sc" by simp
  have "(of_int m - 1) * sc < y" using close lt by (simp add: algebra_simps abs_less_iff)
  then have "of_int (m - 1) < y / sc" using sc by (simp add: field_simps)
  moreover have "y / sc < of_int (m - 1) + 1" using lt sc by (simp add: field_simps)
  ultimately have "\<lfloor>y / sc\<rfloor> = m - 1" by (intro floor_unique) simp_all
  then show ?thesis using r by simp
qed

lemma round64_finite_small:
  assumes "\<bar>z\<bar> < 2 ^ 30"
  shows "\<exists>y. round64 z = Fin y"
proof (cases "z = 0")
  case True
  then show ?thesis by (simp add: round64_zero)
next
  case False
  have "(2::rat) powi (29 + 1) = 2 ^ 30" by simp
  then have "\<bar>z\<bar> < 2 powi (29 + 1)" using assms by (simp only:)
  then have "expo z \<le> 29" using False by (intro expo_le) simp_all
  then have "\<not> 1024 \<le> expo z" "\<not> (expo z = 1023 \<and> 2 ^ 53 \<le> \<bar>roundEven (z / ulp z)\<bar>)"
    by simp_all
  then show ?thesis by (simp only: round64_unfold [OF False] if_False) blast
qed

lemma six_places_exact:
  assumes N2: "2 \<le> N" and N15: "N < 10 ^ 15" and r: "round64 (of_int N / 10 ^ 6) = Fin y"
  shows "0 < y"
    and "\<exists>ds n. toStringPos y = render ds n \<and> list_all isDigit ds \<and> ds \<noteq> []
           \<and> of_int (digitsVal 10 ds) * ipow 10 (n - int (length ds)) = of_int N / 10 ^ 6
           \<and> last ds \<noteq> CHR ''0'' \<and> - 5 \<le> n \<and> n \<le> 21"
proof -
  define d :: rat where "d = of_int N / 10 ^ 6"
  have rd: "round64 d = Fin y" using r by (simp only: d_def)
  have dN: "d * 10 ^ 6 = of_int N" by (simp add: d_def)
  have "(of_int 2 :: rat) \<le> of_int N" using N2 by (simp only: of_int_le_iff)
  then have "(2::rat) \<le> of_int N" by simp
  then have "2 / 10 ^ 6 \<le> of_int N / (10 ^ 6 :: rat)" by (intro divide_right_mono) simp_all
  then have dlo: "1 / 500000 \<le> d" by (simp add: d_def)
  have "N + 1 \<le> 10 ^ 15" using N15 by simp
  then have "(of_int (N + 1) :: rat) \<le> of_int (10 ^ 15)" by (simp only: of_int_le_iff)
  then have "(of_int N :: rat) \<le> 10 ^ 15 - 1" by simp
  then have "of_int N / (10 ^ 6 :: rat) \<le> (10 ^ 15 - 1) / 10 ^ 6" by (intro divide_right_mono) simp_all
  then have dhi: "d \<le> 1000000000 - 1 / 1000000" by (simp add: d_def)
  have d0: "d \<noteq> 0" using dlo by auto
  have "\<bar>d\<bar> < 1073741824" using dlo dhi by linarith
  then have dabs: "\<bar>d\<bar> < 2 ^ 30" by simp
  have "\<bar>y - d\<bar> \<le> 1 / 2 ^ 24" using d0 dabs rd by (rule near_small)
  then have near: "\<bar>y - d\<bar> \<le> 1 / 16777216" by simp
  have ylo': "1 / 1000000 \<le> y" using near dlo by linarith
  then have ylo: "1 / 10 ^ 6 \<le> y" by simp
  have yhi': "y < 1000000000" using near dhi by linarith
  then have yhi: "y < 10 ^ 9" by simp
  show ypos: "0 < y" using ylo' by linarith
  have num: "isNumber y" using rd by (rule round64_number)
  define n where "n = magnitude 10 y"
  have mb: "10 powi (n - 1) \<le> y" "y < 10 powi n"
    using magnitude_bounds [of 10 y] ypos by (simp_all add: n_def)
  have p9: "(10::rat) powi 9 = 10 ^ 9" by simp
  have "(10::rat) powi (n - 1) < 10 powi 9" using mb(1) yhi by (simp only: p9)
  then have "n - 1 < 9" by (intro powi_less_cancel [of "10::rat"]) simp_all
  then have n9: "n \<le> 9" by simp
  have "(10::rat) powi (- 6) \<le> y" using ylo by (simp only: powi10_neg6)
  then have "(10::rat) powi (- 6) < 10 powi n" using mb(2) by (rule le_less_trans)
  then have "- 6 < n" by (intro powi_less_cancel [of "10::rat"]) simp_all
  then have n5: "- 5 \<le> n" by simp
  define K where "K = n + 6"
  have K1: "1 \<le> K" and K15: "K \<le> 15" using n5 n9 by (simp_all add: K_def)
  obtain s k where sh: "shortest y n 1 16 = (s, k)" by (cases "shortest y n 1 16")
  have ok: "round64 (of_int s * ipow 10 (n - k)) = Fin y" "1 \<le> k"
    "10 ^ (nat k - 1) \<le> s" "s \<le> 10 ^ nat k"
    using shortest_ok [OF num ypos, of 1 16 s k] sh by (simp_all add: n_def)
  have s1: "1 \<le> s" using ok(3) order_trans [OF _ ok(3), of 1] by simp
  text \<open>The search stops at the level of the sixth decimal place at the latest.\<close>
  have scK: "ipow 10 (n - K) = 1 / 10 ^ 6"
    by (simp only: K_def ipow10_powi) (simp add: powi10_neg6)
  have "round64 (of_int \<lfloor>y / ipow 10 (n - K)\<rfloor> * ipow 10 (n - K)) = Fin y
        \<or> round64 (of_int (\<lfloor>y / ipow 10 (n - K)\<rfloor> + 1) * ipow 10 (n - K)) = Fin y"
  proof (rule level_ok [where m = N])
    show "0 < ipow 10 (n - K)" by (simp add: scK)
    show "round64 (of_int N * ipow 10 (n - K)) = Fin y" using rd by (simp add: scK d_def)
    have "\<bar>d - y\<bar> < 1 / 1000000" using near by linarith
    then show "\<bar>of_int N * ipow 10 (n - K) - y\<bar> < ipow 10 (n - K)" by (simp add: scK d_def)
  qed
  then have kK: "k \<le> K" using K1 sh by (rule shortest_stops)
  text \<open>The value printed.\<close>
  define x :: rat where "x = of_int s * ipow 10 (n - k)"
  have rx: "round64 x = Fin y" using ok(1) by (simp only: x_def)
  have scpos: "0 < ipow 10 (n - k)" by (simp add: ipow_pos)
  have xpos: "0 < x" unfolding x_def using s1 scpos by (intro mult_pos_pos) simp_all
  have "(of_int s :: rat) \<le> of_int (10 ^ nat k)" using ok(4) by (simp only: of_int_le_iff)
  moreover have "(of_int (10 ^ nat k) :: rat) = 10 powi k" using ok(2) by (simp add: power_int_def)
  ultimately have "(of_int s :: rat) \<le> 10 powi k" by (simp only:)
  then have "x \<le> 10 powi k * ipow 10 (n - k)"
    unfolding x_def using scpos by (intro mult_right_mono) simp_all
  also have "\<dots> = 10 powi (n - k) * 10 powi k" by (simp add: ipow10_powi)
  also have "\<dots> = 10 powi n" by (rule powi10_shift)
  also have "\<dots> \<le> 10 powi 9" using n9 by (intro power_int_increasing) simp_all
  finally have xhi: "x \<le> 10 ^ 9" by (simp only: p9)
  have x0: "x \<noteq> 0" using xpos by simp
  have "x \<le> 1000000000" using xhi by simp
  then have "\<bar>x\<bar> < 1073741824" using xpos by linarith
  then have xabs: "\<bar>x\<bar> < 2 ^ 30" by simp
  have "\<bar>y - x\<bar> \<le> 1 / 2 ^ 24" using x0 xabs rx by (rule near_small)
  then have nearx: "\<bar>y - x\<bar> \<le> 1 / 16777216" by simp
  have xd: "\<bar>x - d\<bar> \<le> 1 / 8388608" using near nearx by linarith
  define M where "M = s * 10 ^ nat (K - k)"
  have "x * 10 ^ 6 = of_int s * (10 powi (n - k) * 10 powi 6)" by (simp add: x_def ipow10_powi)
  also have "10 powi (n - k) * 10 powi 6 = (10::rat) powi (n - k + 6)"
    by (rule power_int_add [symmetric]) simp
  also have "n - k + 6 = K - k" by (simp add: K_def)
  also have "(10::rat) powi (K - k) = of_int (10 ^ nat (K - k))" using kK by (simp add: power_int_def)
  finally have xM: "x * 10 ^ 6 = of_int M" by (simp add: M_def)
  have "\<bar>x * 1000000 - d * 1000000\<bar> < 1" using xd by linarith
  then have "\<bar>x * 10 ^ 6 - d * 10 ^ 6\<bar> < 1" by simp
  then have "\<bar>(of_int M :: rat) - of_int N\<bar> < 1" by (simp only: xM dN)
  then have "\<bar>(of_int (M - N) :: rat)\<bar> < of_int 1" by simp
  then have "\<bar>M - N\<bar> < 1" by (simp only: of_int_abs [symmetric] of_int_less_iff)
  then have "M = N" by simp
  then have "x * 10 ^ 6 = d * 10 ^ 6" using xM dN by simp
  then have xeq: "x = d" by simp
  text \<open>No shorter digit string gives the value, so the last digit is not a zero.\<close>
  have last: "s mod 10 \<noteq> 0 \<or> k = 1"
  proof (rule ccontr)
    assume "\<not> (s mod 10 \<noteq> 0 \<or> k = 1)"
    then have m0: "s mod 10 = 0" and k2: "2 \<le> k" using ok(2) by simp_all
    define t where "t = s div 10"
    have "s div 10 * 10 + s mod 10 = s" by (rule div_mult_mod_eq)
    then have st: "s = t * 10" unfolding m0 t_def by simp
    have "ipow 10 (n - (k - 1)) = 10 powi (n - k + 1)" by (simp add: ipow10_powi algebra_simps)
    also have "\<dots> = 10 powi (n - k) * 10" by (rule power_int_add_1) simp
    finally have sc: "ipow 10 (n - (k - 1)) = ipow 10 (n - k) * 10" by (simp add: ipow10_powi)
    have tx: "of_int t * ipow 10 (n - (k - 1)) = x" by (simp add: sc x_def st)
    have "(10::rat) powi (- 5) \<le> 10 powi (n - (k - 1))"
      using kK by (intro power_int_increasing) (simp_all add: K_def)
    then have big: "1 / 10 ^ 5 \<le> ipow 10 (n - (k - 1))" by (simp only: powi10_neg5 ipow10_powi)
    have "round64 (of_int \<lfloor>y / ipow 10 (n - (k - 1))\<rfloor> * ipow 10 (n - (k - 1))) = Fin y
        \<or> round64 (of_int (\<lfloor>y / ipow 10 (n - (k - 1))\<rfloor> + 1) * ipow 10 (n - (k - 1))) = Fin y"
    proof (rule level_ok [where m = t])
      show "0 < ipow 10 (n - (k - 1))" by (simp add: ipow_pos)
      show "round64 (of_int t * ipow 10 (n - (k - 1))) = Fin y" using rx by (simp only: tx)
      have "\<bar>x - y\<bar> < 1 / 100000" using nearx by linarith
      then have "\<bar>x - y\<bar> < 1 / 10 ^ 5" by simp
      then have "\<bar>x - y\<bar> < ipow 10 (n - (k - 1))" using big by (rule less_le_trans)
      then show "\<bar>of_int t * ipow 10 (n - (k - 1)) - y\<bar> < ipow 10 (n - (k - 1))"
        by (simp only: tx)
    qed
    moreover have "1 \<le> k - 1" using k2 by simp
    ultimately have "k \<le> k - 1" using sh by (rule shortest_stops)
    then show False by simp
  qed
  have sh0: "shortest y (magnitude 10 y) 1 16 = (s, k)" using sh by (simp only: n_def)
  obtain ds n' where t: "toStringPos y = render ds n'" and dg: "list_all isDigit ds" "ds \<noteq> []"
    and v: "of_int (digitsVal 10 ds) * ipow 10 (n' - int (length ds)) = of_int s * ipow 10 (n - k)"
    and z: "s mod 10 \<noteq> 0 \<or> k = 1 \<longrightarrow> last ds \<noteq> CHR ''0''"
    and nn: "n' = n \<or> n' = n + 1 \<and> s = 10 ^ nat k"
    using toStringPos_value [OF num ypos sh0] unfolding n_def [symmetric]
    by (elim exE conjE) (rule that)
  have "of_int (digitsVal 10 ds) * ipow 10 (n' - int (length ds)) = of_int N / 10 ^ 6"
    using v xeq by (simp only: x_def d_def)
  moreover have "last ds \<noteq> CHR ''0''" using z last by simp
  moreover have "- 5 \<le> n'" "n' \<le> 21" using nn n5 n9 by auto
  ultimately show "\<exists>ds n. toStringPos y = render ds n \<and> list_all isDigit ds \<and> ds \<noteq> []
           \<and> of_int (digitsVal 10 ds) * ipow 10 (n - int (length ds)) = of_int N / 10 ^ 6
           \<and> last ds \<noteq> CHR ''0'' \<and> - 5 \<le> n \<and> n \<le> 21"
    using t dg by blast
qed

lemma digits_plain:
  assumes "list_all isDigit ds"
  shows "CHR ''e'' \<notin> set ds" and "CHR ''.'' \<notin> set ds"
  using assms not_digit(1,2) by (auto simp add: list_all_iff)

lemma render_stripped:
  assumes d: "list_all isDigit ds" and ne: "ds \<noteq> []" and l: "last ds \<noteq> CHR ''0''"
    and n: "- 5 \<le> n" "n \<le> 21"
  shows "stripped (render ds n)"
proof -
  consider (whole) "int (length ds) \<le> n" | (point) "n < int (length ds)" "0 < n"
    | (small) "n < int (length ds)" "n \<le> 0" by linarith
  then show ?thesis
  proof cases
    case whole
    have "list_all isDigit (render ds n)" using d whole n(2) by (rule render_digits(2))
    then show ?thesis using digits_plain by (simp add: stripped_def)
  next
    case point
    have r: "render ds n = take (nat n) ds @ ''.'' @ drop (nat n) ds"
      using point n by (simp add: render_def Let_def)
    have lt: "nat n < length ds" using point by simp
    then have dr: "drop (nat n) ds \<noteq> []" by simp
    have "last (render ds n) = last (drop (nat n) ds)" unfolding r using dr by simp
    also have "\<dots> = last ds" using lt by (rule last_drop)
    finally have a: "last (render ds n) \<noteq> CHR ''0''" using l by simp
    have "set (render ds n) \<subseteq> insert CHR ''.'' (set ds)"
      unfolding r using set_take_subset [of "nat n" ds] set_drop_subset [of "nat n" ds] by auto
    then have "CHR ''e'' \<notin> set (render ds n)" using digits_plain(1) [OF d] by auto
    then show ?thesis using a by (simp add: stripped_def)
  next
    case small
    have r: "render ds n = ''0.'' @ replicate (nat (- n)) CHR ''0'' @ ds"
      using small n by (simp add: render_def Let_def)
    have a: "last (render ds n) \<noteq> CHR ''0''" unfolding r using ne l by simp
    have "CHR ''e'' \<notin> set (render ds n)" unfolding r using digits_plain(1) [OF d] by auto
    then show ?thesis using a by (simp add: stripped_def)
  qed
qed

lemma decimalValue_render:
  assumes d: "list_all isDigit ds" and ne: "ds \<noteq> []"
  shows "decimalValue (render ds n) = Some (of_int (digitsVal 10 ds) * ipow 10 (n - int (length ds)))"
    and "decimalValue (CHR ''-'' # render ds n)
           = Some (- (of_int (digitsVal 10 ds) * ipow 10 (n - int (length ds))))"
proof -
  obtain c cs where r: "render ds n = c # cs" using render_ends(1) [OF d ne, of n] by (cases "render ds n") simp_all
  have "isDigit c" using render_ends(2) [OF d ne, of n] by (simp add: r)
  then have c: "c \<noteq> CHR ''-''" using digit_not_sign by blast
  have sd: "scanDecimal (c # cs) = Some (of_int (digitsVal 10 ds) * ipow 10 (n - int (length ds)), [])"
    using scanDecimal_render [OF d ne, of n] by (simp only: r)
  show "decimalValue (render ds n) = Some (of_int (digitsVal 10 ds) * ipow 10 (n - int (length ds)))"
    unfolding r decimalValue_def using c by (simp add: sd)
  show "decimalValue (CHR ''-'' # render ds n)
           = Some (- (of_int (digitsVal 10 ds) * ipow 10 (n - int (length ds))))"
    unfolding r decimalValue_def by (simp add: sd)
qed

lemma stripped_minus: "s \<noteq> [] \<Longrightarrow> stripped s \<Longrightarrow> stripped (CHR ''-'' # s)"
  by (simp add: stripped_def)

lemma six_places_least:
  "decimalValue (toString (round64 0)) = Some 0"
  "stripped (toString (round64 0))"
  "decimalValue (toString (round64 (1 / 10 ^ 6))) = Some (1 / 10 ^ 6)"
  "stripped (toString (round64 (1 / 10 ^ 6)))"
  "decimalValue (toString (round64 (- (1 / 10 ^ 6)))) = Some (- (1 / 10 ^ 6))"
  "stripped (toString (round64 (- (1 / 10 ^ 6))))"
  by code_simp+

lemma formatResult_six_places:
  assumes num: "isNumber q" and ni: "of_int \<lfloor>q\<rfloor> \<noteq> q" and b: "\<bar>sixPlaces q\<bar> < 10 ^ 9"
  shows "decimalValue (formatResult (Fin q)) = Some (sixPlaces q)"
    and "stripped (formatResult (Fin q))"
proof -
  define N where "N = \<lfloor>\<bar>q\<bar> * 10 ^ 6 + 1 / 2\<rfloor>"
  define d :: rat where "d = of_int N / 10 ^ 6"
  have N0: "0 \<le> N" by (simp add: N_def)
  have d0: "0 \<le> d" using N0 by (simp add: d_def)
  have sp: "sixPlaces q = (if q < 0 then - d else d)" by (simp add: sixPlaces_def d_def N_def)
  have f: "formatResult (Fin q) = toString (round64 (sixPlaces q))"
    using num ni by (rule formatResult_fraction(1))
  have "\<bar>sixPlaces q\<bar> = d" using d0 by (simp add: sp)
  then have d9: "d < 10 ^ 9" using b by simp
  then have "of_int N < (10 ^ 9 * 10 ^ 6 :: rat)" by (simp add: d_def field_simps)
  then have "(of_int N :: rat) < of_int (10 ^ 15)" by simp
  then have N15: "N < 10 ^ 15" by (simp only: of_int_less_iff)
  have both: "decimalValue (formatResult (Fin q)) = Some (sixPlaces q) \<and> stripped (formatResult (Fin q))"
  proof (cases "N \<le> 1")
    case True
    then consider "N = 0" | "N = 1" using N0 by linarith
    then show ?thesis
    proof cases
      case 1
      then have "sixPlaces q = 0" by (simp add: sp d_def)
      then show ?thesis using six_places_least(1,2) by (simp add: f)
    next
      case 2
      then have "d = 1 / 10 ^ 6" by (simp add: d_def)
      then have "sixPlaces q = 1 / 10 ^ 6 \<or> sixPlaces q = - (1 / 10 ^ 6)" by (simp add: sp)
      then show ?thesis
      proof
        assume e: "sixPlaces q = 1 / 10 ^ 6"
        show ?thesis unfolding f e using six_places_least(3,4) by (rule conjI)
      next
        assume e: "sixPlaces q = - (1 / 10 ^ 6)"
        show ?thesis unfolding f e using six_places_least(5,6) by (rule conjI)
      qed
    qed
  next
    case False
    then have N2: "2 \<le> N" by simp
    have "d < 1073741824" using d9 by simp
    then have "\<bar>d\<bar> < 2 ^ 30" using d0 by simp
    then obtain y where r: "round64 d = Fin y" using round64_finite_small by blast
    have r': "round64 (of_int N / 10 ^ 6) = Fin y" using r by (simp only: d_def)
    have ypos: "0 < y" using N2 N15 r' by (rule six_places_exact(1))
    obtain ds n where t: "toStringPos y = render ds n" and dg: "list_all isDigit ds" "ds \<noteq> []"
      and v: "of_int (digitsVal 10 ds) * ipow 10 (n - int (length ds)) = of_int N / 10 ^ 6"
      and l: "last ds \<noteq> CHR ''0''" and n: "- 5 \<le> n" "n \<le> 21"
      using six_places_exact(2) [OF N2 N15 r'] by (elim exE conjE) (rule that)
    have st: "stripped (render ds n)" using dg l n by (rule render_stripped)
    have ne: "render ds n \<noteq> []" using render_ends(1) [OF dg] .
    show ?thesis
    proof (cases "q < 0")
      case True
      have "round64 (sixPlaces q) = jsneg (round64 d)" using True by (simp add: sp round64_neg)
      then have "round64 (sixPlaces q) = Fin (- y)" by (simp add: r jsneg_def)
      then have "formatResult (Fin q) = CHR ''-'' # render ds n" using ypos by (simp add: f t)
      moreover have "sixPlaces q = - (of_int N / 10 ^ 6)" using True by (simp add: sp d_def)
      ultimately show ?thesis
        using decimalValue_render(2) [OF dg, of n] stripped_minus [OF ne st] by (simp add: v)
    next
      case False
      have "round64 (sixPlaces q) = Fin y" using False by (simp add: sp r)
      then have "formatResult (Fin q) = render ds n" using ypos by (simp add: f t)
      moreover have "sixPlaces q = of_int N / 10 ^ 6" using False by (simp add: sp d_def)
      ultimately show ?thesis
        using decimalValue_render(1) [OF dg, of n] st by (simp add: v)
    qed
  qed
  show "decimalValue (formatResult (Fin q)) = Some (sixPlaces q)" using both ..
  show "stripped (formatResult (Fin q))" using both ..
qed

subsection \<open>Integers, digit by digit\<close>

lemma round64_ge_pow:
  assumes dpos: "0 < d" and en: "- 1022 < expo d" and rd: "round64 d = Fin y"
  shows "2 powi expo d \<le> y"
proof -
  have d0: "d \<noteq> 0" using dpos by simp
  define n where "n = roundEven (d / ulp d)"
  have yn: "y = of_int n * ulp d" using round64_Fin(2) [OF d0 rd] by (simp add: n_def)
  have "2 ^ 52 \<le> \<bar>d / ulp d\<bar>" using scaled_lower [OF d0 en] .
  then have "of_int (2 ^ 52) \<le> \<bar>d / ulp d\<bar>" by simp
  then have "2 ^ 52 \<le> \<bar>n\<bar>"
    unfolding n_def by (intro abs_int_lower [OF roundEven_near])
  moreover have "0 \<le> n" unfolding n_def using dpos ulp_pos [of d] by (intro roundEven_nonneg) simp
  ultimately have n52: "2 ^ 52 \<le> n" by simp
  then have "(of_int (2 ^ 52) :: rat) \<le> of_int n" by (simp only: of_int_le_iff)
  then have "(2 ^ 52 :: rat) \<le> of_int n" by simp
  then have "2 ^ 52 * ulp d \<le> of_int n * ulp d"
    using ulp_pos [of d] by (intro mult_right_mono) simp_all
  moreover have "(2::rat) powi expo d = 2 ^ 52 * ulp d" unfolding ulp_def by (rule powi_shift(2))
  ultimately show ?thesis by (simp only: yn)
qed

lemma digitChar_zero: "digitChar 0 = CHR ''0''"
  by code_simp

lemma decimal_shift: "1 \<le> m \<Longrightarrow> decimal (m * 10 ^ j) = decimal m @ replicate j CHR ''0''"
proof (induction j)
  case 0
  show ?case by simp
next
  case (Suc j)
  have "1 * 1 \<le> m * 10 ^ j" using Suc.prems by (intro mult_mono) simp_all
  then have "1 \<le> m * 10 ^ j" by simp
  then have big: "10 \<le> m * 10 ^ j * 10" by simp
  have e: "m * 10 ^ Suc j = m * 10 ^ j * 10" by simp
  have "decimal (m * 10 ^ Suc j) = decimal (m * 10 ^ j * 10)" by (simp only: e)
  also have "\<dots> = decimal (m * 10 ^ j * 10 div 10) @ [digitChar (m * 10 ^ j * 10 mod 10)]"
    using big by (rule decimal_step)
  also have "\<dots> = decimal (m * 10 ^ j) @ [CHR ''0'']" by (simp add: digitChar_zero)
  also have "\<dots> = decimal m @ replicate j CHR ''0'' @ [CHR ''0'']" using Suc by simp
  also have "replicate j CHR ''0'' @ [CHR ''0''] = replicate (Suc j) CHR ''0''"
    by (simp add: replicate_append_same)
  finally show ?case .
qed

lemma integer_exact:
  assumes num: "isNumber q" and pos: "0 < q" and int: "q = of_int z" and small: "q < 2 ^ 53"
  shows "toStringPos q = decimal z"
proof -
  define n where "n = magnitude 10 q"
  have mb: "10 powi (n - 1) \<le> q" "q < 10 powi n"
    using magnitude_bounds [of 10 q] pos by (simp_all add: n_def)
  have "0 < z" using pos by (simp add: int)
  then have z1: "1 \<le> z" by simp
  then have "(of_int 1 :: rat) \<le> of_int z" by (simp only: of_int_le_iff)
  then have q1: "1 \<le> q" by (simp add: int)
  have "(10::rat) powi 0 < 10 powi n" using q1 mb(2) by simp
  then have "0 < n" by (intro powi_less_cancel [of "10::rat"]) simp_all
  then have n1: "1 \<le> n" by simp
  have "q < 10 ^ 16" using small by (rule less_trans) simp
  then have "(10::rat) powi (n - 1) < 10 powi 16" using mb(1) by simp
  then have "n - 1 < 16" by (intro powi_less_cancel [of "10::rat"]) simp_all
  then have n16: "n \<le> 16" by simp
  obtain s k where sh: "shortest q n 1 16 = (s, k)" by (cases "shortest q n 1 16")
  have ok: "round64 (of_int s * ipow 10 (n - k)) = Fin q" "1 \<le> k"
    "10 ^ (nat k - 1) \<le> s" "s \<le> 10 ^ nat k"
    using shortest_ok [OF num pos, of 1 16 s k] sh by (simp_all add: n_def)
  have s1: "1 \<le> s" using ok(3) order_trans [OF _ ok(3), of 1] by simp
  have s0: "0 \<le> s" using s1 by simp
  have kn: "k \<le> n"
  proof -
    have one: "ipow 10 (n - n) = 1" by (simp add: ipow_def)
    have "round64 q = Fin q" using num by (simp add: isNumber_def)
    then have "round64 (of_int \<lfloor>q\<rfloor>) = Fin q" by (simp add: int)
    then have "round64 (of_int \<lfloor>q / ipow 10 (n - n)\<rfloor> * ipow 10 (n - n)) = Fin q"
      by (simp only: one div_by_1 mult_1_right)
    then have "round64 (of_int \<lfloor>q / ipow 10 (n - n)\<rfloor> * ipow 10 (n - n)) = Fin q
               \<or> round64 (of_int (\<lfloor>q / ipow 10 (n - n)\<rfloor> + 1) * ipow 10 (n - n)) = Fin q"
      by (rule disjI1)
    then show ?thesis using n1 sh by (rule shortest_stops)
  qed
  define j where "j = nat (n - k)"
  define M where "M = s * 10 ^ j"
  have sc: "ipow 10 (n - k) = of_int (10 ^ j)" unfolding j_def using kn by (intro ipow_nonneg) simp
  have rM: "round64 (of_int M) = Fin q" using ok(1) by (simp add: sc M_def)
  have "1 * 1 \<le> s * 10 ^ j" using s1 by (intro mult_mono) simp_all
  then have M1: "1 \<le> M" by (simp add: M_def)
  have Mlt: "M < 2 ^ 53"
  proof (rule ccontr)
    assume "\<not> M < 2 ^ 53"
    then have "2 ^ 53 \<le> M" by simp
    then have "(of_int (2 ^ 53) :: rat) \<le> of_int M" by (simp only: of_int_le_iff)
    then have big: "(2::rat) powi 53 \<le> \<bar>of_int M\<bar>" by simp
    then have e: "53 \<le> expo (of_int M)" by (rule expo_mono_lower)
    have "(0::rat) < of_int M" using M1 by simp
    moreover have "- 1022 < expo (of_int M)" using e by simp
    ultimately have "2 powi expo (of_int M) \<le> q" using rM by (rule round64_ge_pow)
    moreover have "(2::rat) powi 53 \<le> 2 powi expo (of_int M)"
      using e by (intro power_int_increasing) simp_all
    ultimately have "(2::rat) powi 53 \<le> q" by simp
    then show False using small by simp
  qed
  have "\<bar>M\<bar> < 2 ^ 53" using M1 Mlt by simp
  then have "round64 (of_int M) = Fin (of_int M)" by (rule round64_of_int_small)
  then have "(of_int M :: rat) = of_int z" using rM by (simp add: int)
  then have Mz: "M = z" by (simp only: of_int_eq_iff)
  have nk: "nat k = Suc (nat k - 1)" using ok(2) by simp
  show ?thesis
  proof (cases "s = 10 ^ nat k")
    case True
    define t :: int where "t = 10 ^ (nat k - 1)"
    have st: "s = 10 * t" unfolding True t_def by (subst nk) simp
    have sdiv: "s div 10 = t" unfolding st by simp
    have ts: "toStringPos q = render (decimal t) (n + 1)"
      using sh True sdiv by (simp add: toStringPos_def n_def [symmetric])
    have t0: "0 \<le> t" and t1: "1 \<le> t" by (simp_all add: t_def)
    have "t < 10 ^ nat k" unfolding t_def by (subst (2) nk) simp
    then have len: "length (decimal t) = nat k"
      using ok(2) by (intro decimal_length) (simp_all add: t_def)
    have d: "list_all isDigit (decimal t)" using decimal_props [OF t0] by simp
    have "int (length (decimal t)) \<le> n + 1" using kn ok(2) by (simp add: len)
    moreover have "n + 1 \<le> 21" using n16 by simp
    ultimately have "render (decimal t) (n + 1)
        = decimal t @ replicate (nat (n + 1 - int (length (decimal t)))) CHR ''0''"
      using d by (intro render_digits(1))
    also have "nat (n + 1 - int (length (decimal t))) = Suc j"
      using kn ok(2) by (simp add: len j_def)
    also have "decimal t @ replicate (Suc j) CHR ''0'' = decimal (t * 10 ^ Suc j)"
      using t1 by (rule decimal_shift [symmetric])
    also have "t * 10 ^ Suc j = M" by (simp add: M_def st)
    finally show ?thesis by (simp add: ts Mz)
  next
    case False
    then have lt: "s < 10 ^ nat k" using ok(4) by simp
    have ts: "toStringPos q = render (decimal s) n"
      using sh False by (simp add: toStringPos_def n_def [symmetric])
    have len: "length (decimal s) = nat k" using ok(2,3) lt by (intro decimal_length) simp_all
    have d: "list_all isDigit (decimal s)" using decimal_props [OF s0] by simp
    have "int (length (decimal s)) \<le> n" using kn ok(2) by (simp add: len)
    moreover have "n \<le> 21" using n16 by simp
    ultimately have "render (decimal s) n
        = decimal s @ replicate (nat (n - int (length (decimal s)))) CHR ''0''"
      using d by (intro render_digits(1))
    also have "nat (n - int (length (decimal s))) = j"
      using kn ok(2) by (simp add: len j_def)
    also have "decimal s @ replicate j CHR ''0'' = decimal (s * 10 ^ j)"
      using s1 by (rule decimal_shift [symmetric])
    finally show ?thesis by (simp add: ts Mz [symmetric] M_def)
  qed
qed

lemma formatResult_integer_exact:
  assumes num: "isNumber q" and int: "of_int \<lfloor>q\<rfloor> = q" and small: "\<bar>q\<bar> < 2 ^ 53"
  shows "formatResult (Fin q) = (if q < 0 then ''-'' else []) @ decimal \<bar>\<lfloor>q\<rfloor>\<bar>"
proof -
  have f: "formatResult (Fin q) = toString (Fin q)" using int by (simp add: formatResult_def)
  consider (zero) "q = 0" | (pos) "0 < q" | (neg) "q < 0" by linarith
  then show ?thesis
  proof cases
    case zero
    have "decimal 0 = ''0''" by (simp add: decimal_small digitChar_zero)
    then show ?thesis unfolding f using zero by simp
  next
    case pos
    have "0 \<le> \<lfloor>q\<rfloor>" using pos by simp
    then have a: "\<bar>\<lfloor>q\<rfloor>\<bar> = \<lfloor>q\<rfloor>" by simp
    have qs: "q < 2 ^ 53" using small pos by simp
    have "toStringPos q = decimal \<lfloor>q\<rfloor>"
      using num pos int [symmetric] qs by (rule integer_exact)
    then show ?thesis using pos by (simp add: f a)
  next
    case neg
    have n: "isNumber (- q)" using num by (simp add: isNumber_neg)
    have "\<lfloor>q\<rfloor> \<le> 0" using neg by (simp add: floor_le_zero le_less)
    then have a: "\<bar>\<lfloor>q\<rfloor>\<bar> = - \<lfloor>q\<rfloor>" by simp
    have "of_int (- \<lfloor>q\<rfloor>) = - (of_int \<lfloor>q\<rfloor> :: rat)" by simp
    then have i: "- q = of_int (- \<lfloor>q\<rfloor>)" by (simp only: int)
    have p: "0 < - q" using neg by simp
    have qs: "- q < 2 ^ 53" using small neg by simp
    have "toStringPos (- q) = decimal (- \<lfloor>q\<rfloor>)"
      using n p i qs by (rule integer_exact)
    then show ?thesis using neg by (simp add: f a)
  qed
qed

lemma formatResult_integer_back:
  assumes "isNum v" and "isInteger v"
  shows "formatResult v = toString v" and "getNumericValue (formatResult v) = v"
proof -
  show f: "formatResult v = toString v" using assms(2) by (simp add: formatResult_def)
  show "getNumericValue (formatResult v) = v" unfolding f using assms(1) by (rule toString_roundtrip)
qed

text \<open>
  From \<open>2 ^ 53\<close> on, the digits printed need not be those of the integer: they are the
  fewest that read back as it.
\<close>

lemma formatResult_large_integer:
  "isNum (Fin (2 ^ 60)) \<and> formatResult (Fin (2 ^ 60)) = ''1152921504606847000''
   \<and> decimal (2 ^ 60) = ''1152921504606846976''
   \<and> getNumericValue ''1152921504606847000'' = Fin (2 ^ 60)"
  by code_simp


subsection \<open>The statement\<close>

text \<open>
  C6, as the code has it. For every Number, formatting what \<open>getNumericValue\<close> reads
  from the formatted result gives the formatted result again. An integer is printed by
  \<open>toString\<close>, and what is printed reads back as the integer; below \<open>10 ^ 21\<close> in
  absolute value it has no fractional part: decimal digits after an optional minus sign;
  below \<open>2 ^ 53\<close> these are the digits of the integer itself. A finite value that is not
  an integer is rounded to six decimal places, a half going away from zero; that decimal
  is rounded to the nearest Number, and the Number is printed with the fewest digits
  that read back as it. When the six-place decimal is below \<open>10 ^ 9\<close> in absolute value,
  what is printed is that decimal itself, with no exponent and no zero at the end of its
  fraction digits. The values that are not finite print as \<open>NaN\<close>, \<open>Infinity\<close> and
  \<open>-Infinity\<close>.
\<close>

theorem formatResult_round_trip:
  assumes "isNum v"
  shows "formatResult (getNumericValue (formatResult v)) = formatResult v
       \<and> (\<forall>q. v = Fin q \<and> of_int \<lfloor>q\<rfloor> = q \<longrightarrow>
            formatResult v = toString v
            \<and> getNumericValue (formatResult v) = v
            \<and> (\<bar>q\<bar> < 10 ^ 21 \<longrightarrow> plainInteger (formatResult v))
            \<and> (\<bar>q\<bar> < 2 ^ 53 \<longrightarrow>
                 formatResult v = (if q < 0 then ''-'' else []) @ decimal \<bar>\<lfloor>q\<rfloor>\<bar>))
       \<and> (\<forall>q. v = Fin q \<and> of_int \<lfloor>q\<rfloor> \<noteq> q \<longrightarrow>
            formatResult v = toString (round64 (sixPlaces q))
            \<and> getNumericValue (formatResult v) = round64 (sixPlaces q))
       \<and> (\<forall>q. v = Fin q \<and> of_int \<lfloor>q\<rfloor> \<noteq> q \<and> \<bar>sixPlaces q\<bar> < 10 ^ 9 \<longrightarrow>
            decimalValue (formatResult v) = Some (sixPlaces q) \<and> stripped (formatResult v))
       \<and> (v = NaN \<longrightarrow> formatResult v = ''NaN'')
       \<and> (v = PInf \<longrightarrow> formatResult v = ''Infinity'')
       \<and> (v = NInf \<longrightarrow> formatResult v = ''-Infinity'')"
proof (intro conjI allI impI)
  show "formatResult (getNumericValue (formatResult v)) = formatResult v"
    using assms by (rule formatResult_idem)
next
  fix q assume a: "v = Fin q \<and> of_int \<lfloor>q\<rfloor> = q"
  then have i: "isInteger v" by simp
  show "formatResult v = toString v" using assms i by (rule formatResult_integer_back(1))
  show "getNumericValue (formatResult v) = v" using assms i by (rule formatResult_integer_back(2))
next
  fix q assume a: "v = Fin q \<and> of_int \<lfloor>q\<rfloor> = q" and b: "\<bar>q\<bar> < 10 ^ 21"
  have "isNumber q" using assms a by (simp add: isNum_def)
  then show "plainInteger (formatResult v)" using a b by (simp add: formatResult_integer)
next
  fix q assume a: "v = Fin q \<and> of_int \<lfloor>q\<rfloor> = q" and b: "\<bar>q\<bar> < 2 ^ 53"
  have n: "isNumber q" using assms a by (simp add: isNum_def)
  have i: "of_int \<lfloor>q\<rfloor> = q" using a by (rule conjunct2)
  show "formatResult v = (if q < 0 then ''-'' else []) @ decimal \<bar>\<lfloor>q\<rfloor>\<bar>"
    using formatResult_integer_exact [OF n i b] a by (simp only:)
next
  fix q assume a: "v = Fin q \<and> of_int \<lfloor>q\<rfloor> \<noteq> q"
  then have n: "isNumber q" using assms by (simp add: isNum_def)
  show "formatResult v = toString (round64 (sixPlaces q))"
    using formatResult_fraction(1) [OF n] a by simp
  show "getNumericValue (formatResult v) = round64 (sixPlaces q)"
    using formatResult_fraction(2) [OF n] a by simp
next
  fix q assume a: "v = Fin q \<and> of_int \<lfloor>q\<rfloor> \<noteq> q \<and> \<bar>sixPlaces q\<bar> < 10 ^ 9"
  then have n: "isNumber q" using assms by (simp add: isNum_def)
  show "decimalValue (formatResult v) = Some (sixPlaces q)"
    using formatResult_six_places(1) [OF n] a by simp
  show "stripped (formatResult v)"
    using formatResult_six_places(2) [OF n] a by simp
next
  assume "v = NaN"
  then show "formatResult v = ''NaN''" using formatResult_special(1) by simp
next
  assume "v = PInf"
  then show "formatResult v = ''Infinity''" using formatResult_special(2) by simp
next
  assume "v = NInf"
  then show "formatResult v = ''-Infinity''" using formatResult_special(3) by simp
qed

text \<open>
  On the examples: 1.1 + 2.2 is 3.3000000000000003, whose six-place decimal is 3.3,
  formatted as 3.3, which formats as 3.3; and 24 is formatted as 24, which reads back
  as 24.
\<close>

theorem formatResult_round_trip_witness:
  "computeResult ''sum'' (map getNumericValue [''1.1'', ''2.2'']) = Fin (7430939385161319 / 2 ^ 51)
   \<and> isNum (Fin (7430939385161319 / 2 ^ 51))
   \<and> sixPlaces (7430939385161319 / 2 ^ 51) = 33 / 10
   \<and> formatResult (Fin (7430939385161319 / 2 ^ 51)) = ''3.3''
   \<and> formatResult (getNumericValue ''3.3'') = ''3.3''
   \<and> getNumericValue ''3.3'' = round64 (33 / 10)
   \<and> decimalValue ''3.3'' = Some (33 / 10) \<and> stripped ''3.3''
   \<and> isNum (Fin 24) \<and> formatResult (Fin 24) = ''24'' \<and> plainInteger ''24''
   \<and> getNumericValue ''24'' = Fin 24 \<and> decimal 24 = ''24''
   \<and> isNum NaN \<and> formatResult NaN = ''NaN''"
proof -
  have c: "computeResult ''sum'' (map getNumericValue [''1.1'', ''2.2'']) = Fin (7430939385161319 / 2 ^ 51)"
    by code_simp
  have n: "isNum (Fin (7430939385161319 / 2 ^ 51))" by code_simp
  have s: "sixPlaces (7430939385161319 / 2 ^ 51) = 33 / 10" by code_simp
  have f: "formatResult (Fin (7430939385161319 / 2 ^ 51)) = ''3.3''" by code_simp
  have i: "of_int \<lfloor>7430939385161319 / 2 ^ 51 :: rat\<rfloor> \<noteq> (7430939385161319 / 2 ^ 51 :: rat)"
    by code_simp
  have b: "\<bar>33 / 10 :: rat\<bar> < 10 ^ 9" by simp
  have "formatResult (getNumericValue ''3.3'') = ''3.3''
        \<and> getNumericValue ''3.3'' = round64 (33 / 10)
        \<and> decimalValue ''3.3'' = Some (33 / 10) \<and> stripped ''3.3''"
    using formatResult_round_trip [OF n] i b unfolding f s [symmetric] by blast
  then have a: "formatResult (getNumericValue ''3.3'') = ''3.3''"
    "getNumericValue ''3.3'' = round64 (33 / 10)"
    "decimalValue ''3.3'' = Some (33 / 10)" "stripped ''3.3''"
    unfolding s by blast+
  have n24: "isNum (Fin 24)" by code_simp
  have f24: "formatResult (Fin 24) = ''24''" by code_simp
  have d24: "decimal 24 = ''24''" by code_simp
  have i24: "of_int \<lfloor>24 :: rat\<rfloor> = (24 :: rat)" "\<bar>24 :: rat\<bar> < 10 ^ 21" by simp_all
  have p: "plainInteger ''24''" "getNumericValue ''24'' = Fin 24"
    using formatResult_round_trip [OF n24] i24 unfolding f24 by blast+
  have nn: "isNum NaN" by (simp add: isNum_def)
  have fn: "formatResult NaN = ''NaN''" using formatResult_round_trip [OF nn] by blast
  show ?thesis by (intro conjI c n s f a n24 f24 p d24 nn fn)
qed

text \<open>
  The claim as stated fails on large values. The product of 34359738368 with itself is the
  integer \<open>2 ^ 70\<close>, formatted with an exponent and sixteen fraction digits. The sum of
  1099511627776 and 0.000244140625 rounds to 1099511627776.000244 at six decimal places,
  and is formatted with four, as 1099511627776.0002.
\<close>

theorem formatResult_beyond_six_places:
  "computeResult ''product'' (map getNumericValue [''34359738368'', ''34359738368'']) = Fin (2 ^ 70)
   \<and> isNum (Fin (2 ^ 70)) \<and> isInteger (Fin (2 ^ 70))
   \<and> formatResult (Fin (2 ^ 70)) = ''1.1805916207174113e+21''
   \<and> \<not> plainInteger (formatResult (Fin (2 ^ 70)))
   \<and> computeResult ''sum'' (map getNumericValue [''1099511627776'', ''0.000244140625''])
       = Fin (2 ^ 40 + 1 / 2 ^ 12)
   \<and> isNum (Fin (2 ^ 40 + 1 / 2 ^ 12)) \<and> \<not> isInteger (Fin (2 ^ 40 + 1 / 2 ^ 12))
   \<and> toFixed 6 (Fin (2 ^ 40 + 1 / 2 ^ 12)) = ''1099511627776.000244''
   \<and> sixPlaces (2 ^ 40 + 1 / 2 ^ 12) = 1099511627776000244 / 10 ^ 6
   \<and> formatResult (Fin (2 ^ 40 + 1 / 2 ^ 12)) = ''1099511627776.0002''
   \<and> decimalValue (formatResult (Fin (2 ^ 40 + 1 / 2 ^ 12))) = Some (10995116277760002 / 10 ^ 4)"
proof (intro conjI)
  show "computeResult ''product'' (map getNumericValue [''34359738368'', ''34359738368'']) = Fin (2 ^ 70)"
    by code_simp
  show "isNum (Fin (2 ^ 70))" by code_simp
  show "isInteger (Fin (2 ^ 70))" by code_simp
  show "formatResult (Fin (2 ^ 70)) = ''1.1805916207174113e+21''" by code_simp
  show "\<not> plainInteger (formatResult (Fin (2 ^ 70)))" by code_simp
  show "computeResult ''sum'' (map getNumericValue [''1099511627776'', ''0.000244140625''])
       = Fin (2 ^ 40 + 1 / 2 ^ 12)" by code_simp
  show "isNum (Fin (2 ^ 40 + 1 / 2 ^ 12))" by code_simp
  show "\<not> isInteger (Fin (2 ^ 40 + 1 / 2 ^ 12))" by code_simp
  show "toFixed 6 (Fin (2 ^ 40 + 1 / 2 ^ 12)) = ''1099511627776.000244''" by code_simp
  show "sixPlaces (2 ^ 40 + 1 / 2 ^ 12) = 1099511627776000244 / 10 ^ 6" by code_simp
  show "formatResult (Fin (2 ^ 40 + 1 / 2 ^ 12)) = ''1099511627776.0002''" by code_simp
  show "decimalValue (formatResult (Fin (2 ^ 40 + 1 / 2 ^ 12))) = Some (10995116277760002 / 10 ^ 4)"
    by code_simp
qed

end
